theory Spec2Isabelle
  imports Main "HOL-Library.Word"
begin

unbundle bit_operations_syntax

section \<open>JavaScript values\<close>

text \<open>
  Numbers that the code uses as keys, indices, capacities and counters are integers and are
  modelled as \<open>int\<close>. The elements of a \<open>Uint32Array\<close>, and the loop variables that only
  ever hold the result of a bitwise operator, are 32-bit words. The bitwise operators of
  JavaScript convert their operands to 32 bits first; that conversion is written out.
\<close>

type_synonym u32 = "32 word"

datatype error = TypeError | RangeError | EntityDoesNotExist

text \<open>\<open>xs[i]\<close> on an array: \<open>None\<close> is \<open>undefined\<close>.\<close>

definition array_get :: "'a list \<Rightarrow> int \<Rightarrow> 'a option" where
  "array_get xs i = (if 0 \<le> i \<and> nat i < length xs then Some (xs ! nat i) else None)"

text \<open>The same read on an array that may hold \<open>undefined\<close> entries.\<close>

definition array_get_opt :: "'a option list \<Rightarrow> int \<Rightarrow> 'a option" where
  "array_get_opt xs i = (case array_get xs i of None \<Rightarrow> None | Some v \<Rightarrow> v)"

text \<open>\<open>a & b\<close> on numbers: both operands to 32 bits, the result read as a signed value.\<close>

definition js_and :: "int \<Rightarrow> int \<Rightarrow> int" where
  "js_and a b = sint ((word_of_int a :: u32) AND word_of_int b)"

text \<open>Truthiness of a number in a condition (\<open>if (x && ...)\<close>, \<open>!x\<close>).\<close>

definition truthy :: "int \<Rightarrow> bool" where
  "truthy x = (x \<noteq> 0)"

text \<open>\<open>x >>> k\<close>: the operand as an unsigned 32-bit value, shifted right.\<close>

definition ushr :: "int \<Rightarrow> nat \<Rightarrow> int" where
  "ushr x k = (x mod 2 ^ 32) div 2 ^ k"

text \<open>\<open>1 << (x & 31)\<close>, the mask of one bit.\<close>

definition bitOf :: "int \<Rightarrow> u32" where
  "bitOf x = push_bit (nat (x mod 32)) 1"

text \<open>\<open>(x << 5) | b\<close>: both in 32 bits, the result read as a signed value.\<close>

definition shl5_or :: "int \<Rightarrow> int \<Rightarrow> int" where
  "shl5_or x b = sint (push_bit 5 (word_of_int x :: u32) OR word_of_int b)"

section \<open>Typed arrays\<close>

text \<open>
  A \<open>Uint32Array\<close> is a list of words of fixed length. A read that feeds a bitwise operator
  turns \<open>undefined\<close> (an index out of range) into 0; a write out of range is ignored;
  \<open>target.set(source)\<close> copies the source over the prefix of the target and throws a
  \<open>RangeError\<close> when the source is longer than the target.

  \<open>new Uint32Array(n)\<close> throws a \<open>RangeError\<close> when \<open>n\<close> exceeds the maximum length of a
  typed array, which depends on the platform. The lengths that the BitSet and the
  QueryEntitySet allocate are results of \<open>>>> 5\<close> and so below \<open>2^27\<close> words, which is
  taken to be within that maximum; their allocation is \<open>new_Uint32Array\<close>. Where the
  length has no such bound, in \<open>ensureEntityMaskSize\<close>, the allocation is
  \<open>alloc_Uint32Array\<close>, with the maximum of the platform as a parameter.
\<close>

definition u32_get :: "u32 list \<Rightarrow> int \<Rightarrow> u32" where
  "u32_get xs i = (case array_get xs i of None \<Rightarrow> 0 | Some v \<Rightarrow> v)"

definition u32_set :: "u32 list \<Rightarrow> int \<Rightarrow> u32 \<Rightarrow> u32 list" where
  "u32_set xs i v = (if 0 \<le> i \<and> nat i < length xs then xs[nat i := v] else xs)"

definition new_Uint32Array :: "int \<Rightarrow> u32 list" where
  "new_Uint32Array n = replicate (nat n) 0"


definition typed_set :: "u32 list \<Rightarrow> u32 list \<Rightarrow> error + u32 list" where
  "typed_set target source =
     (if length target < length source then Inl RangeError
      else Inr (source @ drop (length source) target))"

section \<open>Bit scans\<close>

text \<open>
  \<open>Math.clz32\<close> is a primitive of the language: the number of leading zero bits of the
  operand in 32 bits, 32 for zero. It is modelled by a scan from bit 31 downwards.
\<close>

fun clz_from :: "nat \<Rightarrow> u32 \<Rightarrow> nat" where
  "clz_from 0 w = 0"
| "clz_from (Suc n) w = (if bit w n then 0 else Suc (clz_from n w))"

definition clz32 :: "u32 \<Rightarrow> nat" where
  "clz32 w = clz_from 32 w"

definition tzcnt32 :: "u32 \<Rightarrow> int" where
  "tzcnt32 v = (if v = 0 then 32 else 31 - int (clz32 (v AND - v)))"

text \<open>
  The loop shared by every iteration over a word:
  \<open>while (bits !== 0) { const b = tzcnt32(bits); bits &= bits - 1; body(b) }\<close>.
  The body is a transformer of the state that the visitor works on.
\<close>

function forEachBit :: "(int \<Rightarrow> 's \<Rightarrow> 's) \<Rightarrow> u32 \<Rightarrow> 's \<Rightarrow> 's" where
  "forEachBit body bits s =
     (if bits = 0 then s else forEachBit body (bits AND (bits - 1)) (body (tzcnt32 bits) s))"
  by pat_completeness auto
termination
proof (relation "measure (\<lambda>(body, bits, s). unat bits)")
  show "wf (measure (\<lambda>(body :: int \<Rightarrow> 's \<Rightarrow> 's, bits :: u32, s :: 's). unat bits))"
    by simp
next
  fix body :: "int \<Rightarrow> 's \<Rightarrow> 's" and bits :: u32 and s :: 's
  assume nz: "bits \<noteq> 0"
  have "bits AND (bits - 1) \<le> bits - 1"
    by (rule word_and_le1)
  also have "bits - 1 < bits"
    using nz by (simp add: word_less_nat_alt unat_minus_one unat_gt_0)
  finally have "unat (bits AND (bits - 1)) < unat bits"
    by (simp add: word_less_nat_alt)
  then show "((body, bits AND (bits - 1), body (tzcnt32 bits) s), (body, bits, s))
      \<in> measure (\<lambda>(body, bits, s). unat bits)"
    by simp
qed

declare forEachBit.simps [simp del]

section \<open>BitSet\<close>

record bitSet =
  bottom :: "u32 list"
  top' :: "u32 list"
  count :: int
  capacity :: int

definition INITIAL_CAPACITY :: int where
  "INITIAL_CAPACITY = 1024"

definition new_BitSet :: "int \<Rightarrow> bitSet" where
  "new_BitSet cap =
     (let bottomWords = ushr (cap + 31) 5;
          topWords = ushr (bottomWords + 31) 5
      in \<lparr>bottom = new_Uint32Array bottomWords, top' = new_Uint32Array topWords,
          count = 0, capacity = cap\<rparr>)"

definition bitSet_has :: "bitSet \<Rightarrow> int \<Rightarrow> bool" where
  "bitSet_has s key =
     (if key \<ge> capacity s then False
      else u32_get (bottom s) (ushr key 5) AND bitOf key \<noteq> 0)"

text \<open>
  The doubling loop of \<open>grow\<close>: \<open>while (newCapacity < minCapacity) newCapacity *= 2\<close>.
  It does not return from a capacity that is not positive; \<open>None\<close> is that outcome.
\<close>

partial_function (option) growCapacity :: "int \<Rightarrow> int \<Rightarrow> int option" where
  "growCapacity newCapacity minCapacity =
     (if newCapacity < minCapacity then growCapacity (newCapacity * 2) minCapacity
      else Some newCapacity)"

definition bitSet_grow :: "bitSet \<Rightarrow> int \<Rightarrow> (error + bitSet) option" where
  "bitSet_grow s minCapacity =
     (case growCapacity (capacity s) minCapacity of
        None \<Rightarrow> None
      | Some newCapacity \<Rightarrow>
          (let newBottomWords = ushr (newCapacity + 31) 5;
               newTopWords = ushr (newBottomWords + 31) 5
           in case typed_set (new_Uint32Array newBottomWords) (bottom s) of
                Inl err \<Rightarrow> Some (Inl err)
              | Inr newBottom \<Rightarrow>
                  (case typed_set (new_Uint32Array newTopWords) (top' s) of
                     Inl err \<Rightarrow> Some (Inl err)
                   | Inr newTop \<Rightarrow>
                       Some (Inr (s\<lparr>bottom := newBottom, top' := newTop,
                                     capacity := newCapacity\<rparr>)))))"

text \<open>The part of \<open>add\<close> after the growth.\<close>

definition bitSet_add_bit :: "bitSet \<Rightarrow> int \<Rightarrow> bool \<times> bitSet" where
  "bitSet_add_bit s key =
     (let wordIdx = ushr key 5; b = bitOf key in
      if u32_get (bottom s) wordIdx AND b \<noteq> 0 then (False, s)
      else
        (let bottom1 = u32_set (bottom s) wordIdx (u32_get (bottom s) wordIdx OR b);
             top1 = u32_set (top' s) (ushr wordIdx 5)
                      (u32_get (top' s) (ushr wordIdx 5) OR bitOf wordIdx)
         in (True, s\<lparr>bottom := bottom1, top' := top1, count := count s + 1\<rparr>)))"

definition bitSet_add :: "bitSet \<Rightarrow> int \<Rightarrow> (error + bool \<times> bitSet) option" where
  "bitSet_add s key =
     (if key \<ge> capacity s then
        (case bitSet_grow s (key + 1) of
           None \<Rightarrow> None
         | Some (Inl err) \<Rightarrow> Some (Inl err)
         | Some (Inr s1) \<Rightarrow> Some (Inr (bitSet_add_bit s1 key)))
      else Some (Inr (bitSet_add_bit s key)))"

definition bitSet_remove :: "bitSet \<Rightarrow> int \<Rightarrow> bool \<times> bitSet" where
  "bitSet_remove s key =
     (if key \<ge> capacity s then (False, s)
      else
        (let wordIdx = ushr key 5; b = bitOf key in
         if \<not> (u32_get (bottom s) wordIdx AND b \<noteq> 0) then (False, s)
         else
           (let bottom1 = u32_set (bottom s) wordIdx (u32_get (bottom s) wordIdx AND NOT b);
                top1 = (if u32_get bottom1 wordIdx = 0
                        then u32_set (top' s) (ushr wordIdx 5)
                               (u32_get (top' s) (ushr wordIdx 5) AND NOT (bitOf wordIdx))
                        else top' s)
            in (True, s\<lparr>bottom := bottom1, top' := top1, count := count s - 1\<rparr>))))"


text \<open>
  The visitor \<open>fn\<close> is a transformer of the state it works on; it does not touch the sets
  that are iterated. In \<open>forEach\<close> the bottom word is read without a bitwise operator: for
  an index out of range it is \<open>undefined\<close>, which differs from 0, has \<open>tzcnt32\<close> equal to
  \<open>31 - clz32(0) = -1\<close> and becomes 0 after \<open>bottomBits &= bottomBits - 1\<close>, so that the
  visitor is called once, with \<open>(bottomIdx << 5) | -1 = -1\<close>.
\<close>

definition bitSet_forEach :: "bitSet \<Rightarrow> (int \<Rightarrow> 's \<Rightarrow> 's) \<Rightarrow> 's \<Rightarrow> 's" where
  "bitSet_forEach s fn =
     fold (\<lambda>ti.
        forEachBit (\<lambda>topBit.
          (let bottomIdx = shl5_or (int ti) topBit in
           case array_get (bottom s) bottomIdx of
             None \<Rightarrow> fn (- 1)
           | Some bottomBits \<Rightarrow>
               forEachBit (\<lambda>bottomBit. fn (shl5_or bottomIdx bottomBit)) bottomBits))
          (top' s ! ti))
       [0..<length (top' s)]"

definition bitSet_toArray :: "bitSet \<Rightarrow> int list" where
  "bitSet_toArray s = bitSet_forEach s (\<lambda>key result. result @ [key]) []"

definition bitSetAnd :: "bitSet \<Rightarrow> bitSet \<Rightarrow> (int \<Rightarrow> 's \<Rightarrow> 's) \<Rightarrow> 's \<Rightarrow> 's" where
  "bitSetAnd a b fn =
     fold (\<lambda>ti.
        forEachBit (\<lambda>topBit.
          (let bottomIdx = shl5_or (int ti) topBit in
           forEachBit (\<lambda>bottomBit. fn (shl5_or bottomIdx bottomBit))
             (u32_get (bottom a) bottomIdx AND u32_get (bottom b) bottomIdx)))
          (top' a ! ti AND top' b ! ti))
       [0..<min (length (top' a)) (length (top' b))]"

definition bitSetAndMany :: "bitSet list \<Rightarrow> (int \<Rightarrow> 's \<Rightarrow> 's) \<Rightarrow> 's \<Rightarrow> 's" where
  "bitSetAndMany sets fn =
     (case sets of
        [] \<Rightarrow> (\<lambda>s. s)
      | [s0] \<Rightarrow> bitSet_forEach s0 fn
      | [s0, s1] \<Rightarrow> bitSetAnd s0 s1 fn
      | s0 # rest \<Rightarrow>
          fold (\<lambda>ti.
             forEachBit (\<lambda>topBit.
               (let bottomIdx = shl5_or (int ti) topBit in
                forEachBit (\<lambda>bottomBit. fn (shl5_or bottomIdx bottomBit))
                  (fold (\<lambda>x bottomBits. bottomBits AND u32_get (bottom x) bottomIdx) rest
                     (u32_get (bottom s0) bottomIdx))))
               (fold (\<lambda>x topBits. topBits AND top' x ! ti) rest (top' s0 ! ti)))
            [0..<Min (set (map (\<lambda>x. length (top' x)) sets))])"


section \<open>Entity handles\<close>

text \<open>
  Modelled from the spec: the packing functions (\<open>entity/utils/pack-entity\<close>) are not among
  the sources. A handle is the triple of world id, reuse generation and slot index, and
  equality of handles is equality of the triples; \<open>getEntityId\<close> reads the slot index.
\<close>

record entity =
  worldId :: nat
  generation :: nat
  entityId :: nat

definition getEntityId :: "entity \<Rightarrow> int" where
  "getEntityId e = int (entityId e)"

section \<open>QueryEntitySet\<close>

text \<open>
  The fields \<open>_dense\<close> and \<open>_sparse\<close> are ordinary arrays: a write beyond the length extends
  them, and a read of an index never written is \<open>undefined\<close>. They are maps from property
  keys to values; the key of \<open>_dense\<close> is the value read from \<open>_sparse\<close>, which may be
  \<open>undefined\<close> (\<open>None\<close>), and a value stored in \<open>_sparse\<close> may be \<open>undefined\<close> as well.
\<close>

record queryEntitySet =
  q_bottom :: "u32 list"
  q_capacity :: int
  q_dense :: "int option \<Rightarrow> entity option"
  q_sparse :: "int \<Rightarrow> int option"
  q_cursor :: int

definition new_QueryEntitySet :: "int \<Rightarrow> queryEntitySet" where
  "new_QueryEntitySet cap =
     \<lparr>q_bottom = new_Uint32Array (ushr (cap + 31) 5), q_capacity = cap,
      q_dense = (\<lambda>_. None), q_sparse = (\<lambda>_. None), q_cursor = 0\<rparr>"

definition queryEntitySet_has :: "queryEntitySet \<Rightarrow> entity \<Rightarrow> bool" where
  "queryEntitySet_has s e =
     (let eid = getEntityId e in
      if eid \<ge> q_capacity s then False
      else if u32_get (q_bottom s) (ushr eid 5) AND bitOf eid = 0 then False
      else q_dense s (q_sparse s eid) = Some e)"

definition queryEntitySet_grow :: "queryEntitySet \<Rightarrow> int \<Rightarrow> (error + queryEntitySet) option" where
  "queryEntitySet_grow s minCapacity =
     (case growCapacity (q_capacity s) minCapacity of
        None \<Rightarrow> None
      | Some newCapacity \<Rightarrow>
          (let newWords = ushr (newCapacity + 31) 5
           in case typed_set (new_Uint32Array newWords) (q_bottom s) of
                Inl err \<Rightarrow> Some (Inl err)
              | Inr newBottom \<Rightarrow>
                  Some (Inr (s\<lparr>q_bottom := newBottom, q_capacity := newCapacity\<rparr>))))"

text \<open>The part of \<open>add\<close> after the growth.\<close>

definition queryEntitySet_add_entry :: "queryEntitySet \<Rightarrow> entity \<Rightarrow> queryEntitySet" where
  "queryEntitySet_add_entry s e =
     (let eid = getEntityId e; wordIdx = ushr eid 5; b = bitOf eid in
      if u32_get (q_bottom s) wordIdx AND b \<noteq> 0 then
        (let existingIdx = q_sparse s eid in
         if q_dense s existingIdx = Some e then s
         else s\<lparr>q_dense := (q_dense s)(existingIdx \<mapsto> e)\<rparr>)
      else
        s\<lparr>q_bottom := u32_set (q_bottom s) wordIdx (u32_get (q_bottom s) wordIdx OR b),
          q_sparse := (q_sparse s)(eid \<mapsto> q_cursor s),
          q_dense := (q_dense s)(Some (q_cursor s) \<mapsto> e),
          q_cursor := q_cursor s + 1\<rparr>)"

definition queryEntitySet_add :: "queryEntitySet \<Rightarrow> entity \<Rightarrow> (error + queryEntitySet) option" where
  "queryEntitySet_add s e =
     (let eid = getEntityId e in
      if eid \<ge> q_capacity s then
        (case queryEntitySet_grow s (eid + 1) of
           None \<Rightarrow> None
         | Some (Inl err) \<Rightarrow> Some (Inl err)
         | Some (Inr s1) \<Rightarrow> Some (Inr (queryEntitySet_add_entry s1 e)))
      else Some (Inr (queryEntitySet_add_entry s e)))"

text \<open>
  In \<open>remove\<close>, the entry moved into the freed slot is read from \<open>_dense\<close>; were it
  \<open>undefined\<close>, its id bits would be those of 0.
\<close>

definition queryEntitySet_remove :: "queryEntitySet \<Rightarrow> entity \<Rightarrow> queryEntitySet" where
  "queryEntitySet_remove s e =
     (let eid = getEntityId e in
      if eid \<ge> q_capacity s then s
      else
        (let wordIdx = ushr eid 5; b = bitOf eid in
         if \<not> (u32_get (q_bottom s) wordIdx AND b \<noteq> 0) then s
         else if q_dense s (q_sparse s eid) \<noteq> Some e then s
         else
           (let bottom1 = u32_set (q_bottom s) wordIdx (u32_get (q_bottom s) wordIdx AND NOT b);
                index = q_sparse s eid;
                cursor1 = q_cursor s - 1
            in if index \<noteq> Some cursor1 then
                 (let swapped = q_dense s (Some cursor1);
                      swappedId = (case swapped of None \<Rightarrow> 0 | Some sw \<Rightarrow> getEntityId sw)
                  in s\<lparr>q_bottom := bottom1, q_cursor := cursor1,
                        q_dense := (q_dense s)(index := swapped),
                        q_sparse := (q_sparse s)(swappedId := index)\<rparr>)
               else s\<lparr>q_bottom := bottom1, q_cursor := cursor1\<rparr>)))"

definition queryEntitySet_size :: "queryEntitySet \<Rightarrow> int" where
  "queryEntitySet_size s = q_cursor s"

section \<open>The entity mask table\<close>



section \<open>The world\<close>

datatype autoDestroyPolicy = NoAutoDestroy | Source | Target

text \<open>
  Modelled from the spec: the relation module (\<open>relation/relation\<close>) and the trait module
  (\<open>trait/trait\<close>) are not among the sources. A relation has an auto-destroy policy and a
  bidirectional lookup over its edges; an edge is a pair of a source and the target it
  relates to. \<open>getEntitiesWithRelationTo\<close> enumerates the sources that point at a target,
  \<open>getRelationTargets\<close> the targets of a source, and \<open>cleanupRelationTarget\<close> unlinks
  one edge.
\<close>

record relation =
  autoDestroy :: autoDestroyPolicy
  pairs :: "(entity \<times> entity) list"

text \<open>
  The parts of a world that \<open>checkQuery\<close> and \<open>destroyEntity\<close> work on: the live handles
  of the entity index, the registered relations, the traits of each entity, the entity mask
  table and the result set of the all-entities query.
\<close>

record world =
  entityIndex :: "entity list"
  relations :: "relation list"
  entityTraits :: "entity \<Rightarrow> nat list option"
  entityMasks :: "u32 list list"
  allQuery :: "queryEntitySet option"

text \<open>
  Modelled from the spec: the world module is not among the sources. \<open>world.has\<close> is the
  \<open>exists\<close> of the world contract: whether the handle is one of the live handles of the
  entity index.
\<close>

definition world_has :: "world \<Rightarrow> entity \<Rightarrow> bool" where
  "world_has w e \<longleftrightarrow> e \<in> set (entityIndex w)"

definition getEntitiesWithRelationTo :: "world \<Rightarrow> nat \<Rightarrow> entity \<Rightarrow> entity list" where
  "getEntitiesWithRelationTo w ri target =
     map fst (filter (\<lambda>p. snd p = target) (pairs (relations w ! ri)))"

definition getRelationTargets :: "world \<Rightarrow> nat \<Rightarrow> entity \<Rightarrow> entity list" where
  "getRelationTargets w ri source =
     map snd (filter (\<lambda>p. fst p = source) (pairs (relations w ! ri)))"

definition cleanupRelationTarget :: "world \<Rightarrow> nat \<Rightarrow> entity \<Rightarrow> entity \<Rightarrow> world" where
  "cleanupRelationTarget w ri source target =
     w\<lparr>relations := (relations w)
        [ri := (relations w ! ri)\<lparr>pairs := removeAll (source, target) (pairs (relations w ! ri))\<rparr>]\<rparr>"

text \<open>
  Modelled from the spec: \<open>removeTrait\<close> takes one trait from the entity, and
  \<open>releaseEntity\<close> (\<open>entity/utils/entity-index\<close>, not among the sources) returns the slot
  of a handle, after which the handle no longer exists.
\<close>

definition removeTrait :: "world \<Rightarrow> entity \<Rightarrow> nat \<Rightarrow> world" where
  "removeTrait w e t =
     w\<lparr>entityTraits := (entityTraits w)(e := map_option (removeAll t) (entityTraits w e))\<rparr>"

definition releaseEntity :: "world \<Rightarrow> entity \<Rightarrow> world" where
  "releaseEntity w e = w\<lparr>entityIndex := removeAll e (entityIndex w)\<rparr>"

section \<open>checkQuery\<close>

record bitmask =
  required :: int
  forbidden :: int
  orMask :: int

text \<open>
  The fields of a \<open>QueryInstance\<close> that \<open>checkQuery\<close> reads. An entry of
  \<open>staticBitmasks\<close> may be \<open>undefined\<close>; of \<open>traitInstances.all\<close> only the length is read.
\<close>

record queryInstance =
  staticBitmasks :: "bitmask option list"
  generations :: "int list"
  traitInstancesAll :: "nat list"

text \<open>\<open>genMasks ? (genMasks[eid] | 0) : 0\<close> with \<open>genMasks = entityMasks[g]\<close>.\<close>

definition entityMaskOf :: "u32 list list \<Rightarrow> int \<Rightarrow> int \<Rightarrow> int" where
  "entityMaskOf masks g eid =
     (case array_get masks g of
        None \<Rightarrow> 0
      | Some genMasks \<Rightarrow> (case array_get genMasks eid of None \<Rightarrow> 0 | Some m \<Rightarrow> sint m))"

text \<open>The body of the loop over the touched banks, from index \<open>i\<close> on.\<close>

fun checkBanks :: "u32 list list \<Rightarrow> queryInstance \<Rightarrow> int \<Rightarrow> nat list \<Rightarrow> bool" where
  "checkBanks masks query eid [] = True"
| "checkBanks masks query eid (i # rest) =
     (case array_get_opt (staticBitmasks query) (int i) of
        None \<Rightarrow> checkBanks masks query eid rest
      | Some bm \<Rightarrow>
          (let entityMask = entityMaskOf masks (generations query ! i) eid in
           if \<not> truthy (forbidden bm) \<and> \<not> truthy (required bm) \<and> \<not> truthy (orMask bm) then False
           else if truthy (forbidden bm) \<and> js_and entityMask (forbidden bm) \<noteq> 0 then False
           else if truthy (required bm) \<and> js_and entityMask (required bm) \<noteq> required bm then False
           else if orMask bm \<noteq> 0 \<and> js_and entityMask (orMask bm) = 0 then False
           else checkBanks masks query eid rest))"

definition checkQuery :: "world \<Rightarrow> queryInstance \<Rightarrow> entity \<Rightarrow> error + bool" where
  "checkQuery w query e =
     (let masks = entityMasks w;
          eid = getEntityId e; generationsLen = length (generations query) in
      if length (traitInstancesAll query) = 0 then Inr False
      else if generationsLen = 1 then
        (case array_get_opt (staticBitmasks query) 0 of
           None \<Rightarrow> Inl TypeError
         | Some bm \<Rightarrow>
             (let entityMask = entityMaskOf masks (generations query ! 0) eid in
              if truthy (forbidden bm) \<and> js_and entityMask (forbidden bm) \<noteq> 0 then Inr False
              else if truthy (required bm) \<and> js_and entityMask (required bm) \<noteq> required bm then Inr False
              else if orMask bm \<noteq> 0 \<and> js_and entityMask (orMask bm) = 0 then Inr False
              else Inr True))
      else Inr (checkBanks masks query eid [0..<generationsLen]))"

text \<open>
  The three per-bank conditions in the spec's words: no forbidden bit is set, every required
  bit is set, and a non-empty \<open>or\<close> mask meets the entity's mask.
\<close>

definition triplePasses :: "bitmask \<Rightarrow> int \<Rightarrow> bool" where
  "triplePasses bm m \<longleftrightarrow>
     js_and m (forbidden bm) = 0 \<and> js_and m (required bm) = required bm
     \<and> (orMask bm = 0 \<or> js_and m (orMask bm) \<noteq> 0)"

definition tripleEmpty :: "bitmask \<Rightarrow> bool" where
  "tripleEmpty bm \<longleftrightarrow> required bm = 0 \<and> forbidden bm = 0 \<and> orMask bm = 0"

text \<open>Concrete queries and handles used in the examples below.\<close>

definition entity0 :: entity where
  "entity0 = \<lparr>worldId = 0, generation = 0, entityId = 0\<rparr>"

definition world_of_masks :: "u32 list list \<Rightarrow> world" where
  "world_of_masks em = \<lparr>entityIndex = [], relations = [], entityTraits = (\<lambda>_. None),
     entityMasks = em, allQuery = None\<rparr>"

definition query_single :: queryInstance where
  "query_single = \<lparr>staticBitmasks = [Some \<lparr>required = 3, forbidden = 4, orMask = 0\<rparr>],
     generations = [0], traitInstancesAll = [0, 1, 2]\<rparr>"

definition query_no_traits :: queryInstance where
  "query_no_traits = \<lparr>staticBitmasks = [Some \<lparr>required = 0, forbidden = 0, orMask = 0\<rparr>],
     generations = [0], traitInstancesAll = []\<rparr>"

definition query_empty_bank :: queryInstance where
  "query_empty_bank = \<lparr>staticBitmasks = [Some \<lparr>required = 3, forbidden = 0, orMask = 0\<rparr>,
       Some \<lparr>required = 0, forbidden = 0, orMask = 0\<rparr>],
     generations = [0, 1], traitInstancesAll = [0, 1]\<rparr>"

definition query_absent_bank :: queryInstance where
  "query_absent_bank = \<lparr>staticBitmasks = [Some \<lparr>required = 3, forbidden = 0, orMask = 0\<rparr>, None],
     generations = [0, 1], traitInstancesAll = [0, 1]\<rparr>"

section \<open>destroyEntity\<close>

text \<open>
  The queue of \<open>destroyEntity\<close> is used as a stack (\<open>push\<close> and \<open>pop\<close> at the end of the
  array); it is a list whose head is the top. The set of processed handles is a set. Both
  are emptied at the start of every call. The relations are taken once, before the loop, and
  no step of the loop adds or removes a relation; a relation is addressed by its index in
  the list of relations of the world.
\<close>

text \<open>
  The body of the loop over the sources that relate to the current entity through one
  relation, and the loop. The sources are enumerated once, before the loop.
\<close>

definition sourceStep ::
    "entity \<Rightarrow> nat \<Rightarrow> entity \<Rightarrow> world \<times> entity list \<Rightarrow> world \<times> entity list" where
  "sourceStep currentEntity ri source st =
     (case st of (w, queue) \<Rightarrow>
        if \<not> world_has w source then (w, queue)
        else (cleanupRelationTarget w ri source currentEntity,
              if autoDestroy (relations w ! ri) = Source then source # queue else queue))"

definition processSources :: "entity \<Rightarrow> nat \<Rightarrow> world \<times> entity list \<Rightarrow> world \<times> entity list" where
  "processSources currentEntity ri st =
     fold (sourceStep currentEntity ri) (getEntitiesWithRelationTo (fst st) ri currentEntity) st"

text \<open>
  The body of the loop over the targets of the current entity, and the loop, which runs for
  a relation with the policy \<open>target\<close>.
\<close>

definition targetStep :: "world \<Rightarrow> entity set \<Rightarrow> entity \<Rightarrow> entity list \<Rightarrow> entity list" where
  "targetStep w processed target queue =
     (if \<not> world_has w target then queue
      else if target \<notin> processed then target # queue else queue)"

definition processTargets ::
    "entity \<Rightarrow> entity set \<Rightarrow> nat \<Rightarrow> world \<times> entity list \<Rightarrow> world \<times> entity list" where
  "processTargets currentEntity processed ri st =
     (case st of (w, queue) \<Rightarrow>
        if autoDestroy (relations w ! ri) = Target then
          (w, fold (targetStep w processed) (getRelationTargets w ri currentEntity) queue)
        else (w, queue))"

definition processRelation ::
    "entity \<Rightarrow> entity set \<Rightarrow> nat \<Rightarrow> world \<times> entity list \<Rightarrow> world \<times> entity list" where
  "processRelation currentEntity processed ri st =
     processTargets currentEntity processed ri (processSources currentEntity ri st)"

definition removeAllTraits :: "world \<Rightarrow> entity \<Rightarrow> world" where
  "removeAllTraits w e =
     (case entityTraits w e of
        None \<Rightarrow> w
      | Some traitsArr \<Rightarrow> fold (\<lambda>t w. removeTrait w e t) traitsArr w)"

text \<open>
  Modelled from the spec: the query module is not among the sources; removing a handle from
  the all-entities query removes it from the result set of that query.
\<close>

definition removeFromAllQuery :: "world \<Rightarrow> entity \<Rightarrow> world" where
  "removeFromAllQuery w e =
     (case allQuery w of
        None \<Rightarrow> w
      | Some q \<Rightarrow> w\<lparr>allQuery := Some (queryEntitySet_remove q e)\<rparr>)"

definition clearEntityMasks :: "world \<Rightarrow> entity \<Rightarrow> world" where
  "clearEntityMasks w e =
     w\<lparr>entityMasks := map (\<lambda>row. u32_set row (getEntityId e) 0) (entityMasks w)\<rparr>"

text \<open>
  The end of a turn of the loop: the traits of the entity are removed one by one, the entity
  is released, removed from the all-entities query and from the traits of the world, and its
  mask words are zeroed.
\<close>

definition finishEntity :: "world \<Rightarrow> entity \<Rightarrow> world" where
  "finishEntity w currentEntity =
     (let w2 = removeAllTraits w currentEntity;
          w3 = releaseEntity w2 currentEntity;
          w4 = removeFromAllQuery w3 currentEntity;
          w5 = w4\<lparr>entityTraits := (entityTraits w4)(currentEntity := None)\<rparr>
      in clearEntityMasks w5 currentEntity)"

text \<open>
  One turn of the loop for an entity that was not processed before; \<open>processed\<close> already
  holds the entity.
\<close>

definition destroyOne ::
    "world \<Rightarrow> entity \<Rightarrow> entity list \<Rightarrow> entity set \<Rightarrow> world \<times> entity list" where
  "destroyOne w currentEntity queue processed =
     (case fold (processRelation currentEntity processed) [0..<length (relations w)] (w, queue) of
        (w1, queue1) \<Rightarrow> (finishEntity w1 currentEntity, queue1))"

text \<open>
  The loop, which returns the world and the set of processed handles that it leaves. It ends
  because every handle that is pushed exists or is in the queue already, and a turn that
  does not skip its handle adds the handle to the processed ones.
\<close>

function destroyLoop :: "world \<Rightarrow> entity list \<Rightarrow> entity set \<Rightarrow> world \<times> entity set" where
  "destroyLoop w [] processed = (w, processed)"
| "destroyLoop w (currentEntity # queue) processed =
     (if currentEntity \<in> processed then destroyLoop w queue processed
      else destroyLoop (fst (destroyOne w currentEntity queue (insert currentEntity processed)))
             (snd (destroyOne w currentEntity queue (insert currentEntity processed)))
             (insert currentEntity processed))"
  by pat_completeness auto
termination
proof (relation "inv_image (less_than <*lex*> less_than)
    (\<lambda>(w, queue, processed).
       (card ((set (entityIndex w) \<union> set queue) - processed), length queue))")
  show "wf (inv_image (less_than <*lex*> less_than)
    (\<lambda>(w :: world, queue :: entity list, processed :: entity set).
       (card ((set (entityIndex w) \<union> set queue) - processed), length queue)))"
    by (intro wf_inv_image wf_lex_prod wf_less_than)
next
  fix w :: world and currentEntity queue and processed :: "entity set"
  assume "currentEntity \<in> processed"
  then have "(set (entityIndex w) \<union> set (currentEntity # queue)) - processed
      = (set (entityIndex w) \<union> set queue) - processed" by auto
  then show "((w, queue, processed), (w, currentEntity # queue, processed))
      \<in> inv_image (less_than <*lex*> less_than)
          (\<lambda>(w, queue, processed).
             (card ((set (entityIndex w) \<union> set queue) - processed), length queue))"
    by simp
next
  fix w :: world and currentEntity queue and processed :: "entity set"
  assume fresh: "currentEntity \<notin> processed"
  let ?keeps = "\<lambda>st st' :: world \<times> entity list.
      entityIndex (fst st') = entityIndex (fst st)
      \<and> set (snd st') \<subseteq> set (snd st) \<union> set (entityIndex (fst st))"
  have src: "\<forall>st. ?keeps st (sourceStep c ri x st)" for c ri x
    by (auto simp: sourceStep_def cleanupRelationTarget_def world_has_def)
  have srcs: "\<forall>st. ?keeps st (fold (sourceStep c ri) xs st)" for c ri xs
  proof (induction xs)
    case Nil
    show ?case by simp
  next
    case (Cons x xs)
    show ?case
    proof
      fix st
      from src [of c ri x, rule_format, of st] Cons [rule_format, of "sourceStep c ri x st"]
      show "?keeps st (fold (sourceStep c ri) (x # xs) st)" by auto
    qed
  qed
  have tgt: "\<forall>q. set (fold (targetStep w0 p) xs q) \<subseteq> set q \<union> set (entityIndex w0)" for w0 p xs
  proof (induction xs)
    case Nil
    show ?case by simp
  next
    case (Cons x xs)
    show ?case
    proof
      fix q
      from Cons [rule_format, of "targetStep w0 p x q"]
      show "set (fold (targetStep w0 p) (x # xs) q) \<subseteq> set q \<union> set (entityIndex w0)"
        by (auto simp: targetStep_def world_has_def split: if_splits)
    qed
  qed
  have tgts: "\<forall>st. ?keeps st (processTargets c p ri st)" for c p ri
  proof
    fix st :: "world \<times> entity list"
    from tgt [of "fst st" p "getRelationTargets (fst st) ri c", rule_format, of "snd st"]
    show "?keeps st (processTargets c p ri st)"
      by (cases st) (auto simp: processTargets_def)
  qed
  have rel: "\<forall>st. ?keeps st (processRelation c p ri st)" for c p ri
  proof
    fix st :: "world \<times> entity list"
    from srcs [of c ri "getEntitiesWithRelationTo (fst st) ri c", rule_format, of st]
      tgts [of c p ri, rule_format, of "processSources c ri st"]
    show "?keeps st (processRelation c p ri st)"
      by (auto simp: processRelation_def processSources_def)
  qed
  have rels: "\<forall>st. ?keeps st (fold (processRelation c p) ris st)" for c p ris
  proof (induction ris)
    case Nil
    show ?case by simp
  next
    case (Cons ri ris)
    show ?case
    proof
      fix st
      from rel [of c p ri, rule_format, of st] Cons [rule_format, of "processRelation c p ri st"]
      show "?keeps st (fold (processRelation c p) (ri # ris) st)" by auto
    qed
  qed
  have traits: "\<forall>w0. entityIndex (fold (\<lambda>t w. removeTrait w e t) ts w0) = entityIndex w0" for e ts
    by (induction ts) (simp_all add: removeTrait_def)
  have fin: "set (entityIndex (finishEntity w0 e)) \<subseteq> set (entityIndex w0)" for w0 e
    using traits [of e]
    by (auto simp: finishEntity_def Let_def clearEntityMasks_def removeFromAllQuery_def
        releaseEntity_def removeAllTraits_def split: option.splits)
  let ?p = "insert currentEntity processed"
  let ?st = "fold (processRelation currentEntity ?p) [0..<length (relations w)] (w, queue)"
  from rels [of currentEntity ?p "[0..<length (relations w)]", rule_format, of "(w, queue)"]
  have k: "entityIndex (fst ?st) = entityIndex w" "set (snd ?st) \<subseteq> set queue \<union> set (entityIndex w)"
    by simp_all
  have d: "destroyOne w currentEntity queue ?p = (finishEntity (fst ?st) currentEntity, snd ?st)"
    by (simp add: destroyOne_def split: prod.splits)
  have sub: "(set (entityIndex (finishEntity (fst ?st) currentEntity)) \<union> set (snd ?st)) - ?p
      \<subset> (set (entityIndex w) \<union> set (currentEntity # queue)) - processed"
    using fin [of "fst ?st" currentEntity] k fresh by auto
  have "card ((set (entityIndex (finishEntity (fst ?st) currentEntity)) \<union> set (snd ?st)) - ?p)
      < card ((set (entityIndex w) \<union> set (currentEntity # queue)) - processed)"
    by (rule psubset_card_mono [OF _ sub]) simp
  then show "((fst (destroyOne w currentEntity queue ?p), snd (destroyOne w currentEntity queue ?p), ?p),
        (w, currentEntity # queue, processed))
      \<in> inv_image (less_than <*lex*> less_than)
          (\<lambda>(w, queue, processed).
             (card ((set (entityIndex w) \<union> set queue) - processed), length queue))"
    by (simp add: d)
qed

text \<open>
  \<open>destroyEntity\<close> returns the error it throws, if any, and the world it leaves. The check
  of existence is its first statement.
\<close>

definition destroyEntity :: "world \<Rightarrow> entity \<Rightarrow> error option \<times> world" where
  "destroyEntity w e =
     (if \<not> world_has w e then (Some EntityDoesNotExist, w)
      else (None, fst (destroyLoop w [e] {})))"

section \<open>Notions used in the statements and proofs\<close>

text \<open>The index of the lowest set bit of a number, and of a word.\<close>

fun ctz :: "nat \<Rightarrow> nat" where
  "ctz n = (if n = 0 then 0 else if odd n then 0 else Suc (ctz (n div 2)))"

declare ctz.simps [simp del]

definition lowest :: "u32 \<Rightarrow> nat" where
  "lowest w = ctz (unat w)"

text \<open>The bit of key \<open>k\<close> in an array of words; a word out of range counts as zero.\<close>

definition keyBit :: "u32 list \<Rightarrow> nat \<Rightarrow> bool" where
  "keyBit xs k = bit (u32_get xs (int (k div 32))) (k mod 32)"

text \<open>
  The two-level invariant of a BitSet: a bit of the top level is set exactly when the bottom
  word it stands for is not zero.
\<close>

definition topSummarizesBottom :: "bitSet \<Rightarrow> bool" where
  "topSummarizesBottom s \<longleftrightarrow>
     (\<forall>i. keyBit (top' s) i \<longleftrightarrow> u32_get (bottom s) (int i) \<noteq> 0)"

text \<open>
  The states that the constructor and the operations produce: a positive capacity within
  the range in which keys are non-negative 32-bit values, arrays of the lengths that the
  constructor and \<open>grow\<close> allocate, the two-level invariant, no bit at or beyond the
  capacity, and a count that is the number of bits set.
\<close>

definition bitSet_wf :: "bitSet \<Rightarrow> bool" where
  "bitSet_wf s \<longleftrightarrow>
     0 < capacity s \<and> capacity s \<le> 2 ^ 31
     \<and> int (length (bottom s)) = (capacity s + 31) div 32
     \<and> int (length (top' s)) = (int (length (bottom s)) + 31) div 32
     \<and> topSummarizesBottom s
     \<and> (\<forall>k. keyBit (bottom s) k \<longrightarrow> int k < capacity s)
     \<and> count s = int (card {k. keyBit (bottom s) k})"

text \<open>
  The two-level scan that the set operations share, with the top words \<open>T\<close> and the action
  \<open>inner\<close> on a bottom index; the keys of a bottom word; and the keys that a scan visits,
  in the order of the visits.
\<close>

definition keysOfWord :: "nat \<Rightarrow> u32 \<Rightarrow> nat list" where
  "keysOfWord i w = map (\<lambda>j. i * 32 + j) (filter (bit w) [0..<32])"

definition scan2 :: "nat \<Rightarrow> (nat \<Rightarrow> u32) \<Rightarrow> (int \<Rightarrow> 's \<Rightarrow> 's) \<Rightarrow> 's \<Rightarrow> 's" where
  "scan2 n T inner =
     fold (\<lambda>ti. forEachBit (\<lambda>topBit. inner (shl5_or (int ti) topBit)) (T ti)) [0..<n]"

definition scanKeys :: "nat \<Rightarrow> (nat \<Rightarrow> u32) \<Rightarrow> (nat \<Rightarrow> u32) \<Rightarrow> nat list" where
  "scanKeys n T W =
     concat (map (\<lambda>ti. concat (map (\<lambda>j. keysOfWord (ti * 32 + j) (W (ti * 32 + j)))
       (filter (bit (T ti)) [0..<32]))) [0..<n])"

text \<open>
  The states of a QueryEntitySet that the constructor and \<open>grow\<close> produce: a positive
  capacity in the range of non-negative 32-bit keys, and a bit array of the length allocated
  for it.
\<close>

definition queryEntitySet_wf :: "queryEntitySet \<Rightarrow> bool" where
  "queryEntitySet_wf s \<longleftrightarrow>
     0 < q_capacity s \<and> q_capacity s \<le> 2 ^ 31
     \<and> int (length (q_bottom s)) = (q_capacity s + 31) div 32"

text \<open>The membership bit at the slot index of a handle.\<close>

definition slotBit :: "queryEntitySet \<Rightarrow> entity \<Rightarrow> bool" where
  "slotBit s e \<longleftrightarrow> u32_get (q_bottom s) (ushr (getEntityId e) 5) AND bitOf (getEntityId e) \<noteq> 0"

text \<open>
  The reduction in the spec's words, pairwise AND reduced across all sets: the intersection
  of the first two sets is collected, by a visitor that adds each key it is given, into a
  fresh BitSet of the first set's capacity, which then takes the place of the two.
\<close>

definition collectInto :: "int \<Rightarrow> bitSet option \<Rightarrow> bitSet option" where
  "collectInto k acc =
     (case acc of
        None \<Rightarrow> None
      | Some s \<Rightarrow> (case bitSet_add s k of Some (Inr (_, s')) \<Rightarrow> Some s' | _ \<Rightarrow> None))"

definition intersect :: "bitSet \<Rightarrow> bitSet \<Rightarrow> bitSet option" where
  "intersect a b = bitSetAnd a b collectInto (Some (new_BitSet (capacity a)))"

fun pairwiseAnd :: "bitSet list \<Rightarrow> bitSet option" where
  "pairwiseAnd [] = None"
| "pairwiseAnd [s] = Some s"
| "pairwiseAnd (a # b # rest) =
     (case intersect a b of None \<Rightarrow> None | Some ab \<Rightarrow> pairwiseAnd (ab # rest))"

text \<open>The BitSet that results from adding the keys of a list, in order, to a fresh set.\<close>

definition bitSet_of_keys :: "int list \<Rightarrow> bitSet" where
  "bitSet_of_keys keys =
     fold (\<lambda>k s. case bitSet_add s k of Some (Inr (_, s')) \<Rightarrow> s' | _ \<Rightarrow> s) keys
       (new_BitSet INITIAL_CAPACITY)"







text \<open>
  The edges along which destruction cascades: from a target to a source that relates to it
  through a relation with the policy \<open>source\<close>, and from a source to a target of a relation
  with the policy \<open>target\<close>. \<open>fewerPairs w w'\<close>: the world \<open>w'\<close> has the live handles and the
  relations of \<open>w\<close>, with some edges unlinked.
\<close>

definition cascade :: "world \<Rightarrow> (entity \<times> entity) set" where
  "cascade w = {(x, y). \<exists>ri < length (relations w).
       (autoDestroy (relations w ! ri) = Source \<and> (y, x) \<in> set (pairs (relations w ! ri)))
     \<or> (autoDestroy (relations w ! ri) = Target \<and> (x, y) \<in> set (pairs (relations w ! ri)))}"

definition fewerPairs :: "world \<Rightarrow> world \<Rightarrow> bool" where
  "fewerPairs w w' \<longleftrightarrow>
     entityIndex w' = entityIndex w \<and> length (relations w') = length (relations w)
     \<and> (\<forall>ri < length (relations w).
          autoDestroy (relations w' ! ri) = autoDestroy (relations w ! ri)
          \<and> set (pairs (relations w' ! ri)) \<subseteq> set (pairs (relations w ! ri)))"

text \<open>Concrete handles and sets used in the examples below.\<close>

definition entity_A :: entity where
  "entity_A = \<lparr>worldId = 0, generation = 0, entityId = 1\<rparr>"

definition entity_B :: entity where
  "entity_B = \<lparr>worldId = 0, generation = 0, entityId = 2\<rparr>"

definition world_childOf :: "(entity \<times> entity) list \<Rightarrow> world" where
  "world_childOf edges =
     \<lparr>entityIndex = [entity_A, entity_B],
      relations = [\<lparr>autoDestroy = Source, pairs = edges\<rparr>],
      entityTraits = (\<lambda>e. if e = entity_A \<or> e = entity_B then Some [0] else None),
      entityMasks = [[0, 1, 1]], allQuery = None\<rparr>"



definition entity_5000 :: entity where
  "entity_5000 = \<lparr>worldId = 0, generation = 0, entityId = 5000\<rparr>"

definition entity0_gen1 :: entity where
  "entity0_gen1 = \<lparr>worldId = 0, generation = 1, entityId = 0\<rparr>"

definition qes_with_entity0 :: queryEntitySet where
  "qes_with_entity0 = queryEntitySet_add_entry (new_QueryEntitySet 1024) entity0"

section \<open>Properties of the bit scans\<close>

lemma bit_ctz: "n \<noteq> 0 \<Longrightarrow> bit n (ctz n)"
proof (induction n rule: ctz.induct)
  case (1 n)
  show ?case
  proof (cases "odd n")
    case True
    with 1(2) show ?thesis by (simp add: ctz.simps [of n] bit_0)
  next
    case False
    with 1 have "bit (n div 2) (ctz (n div 2))" by auto
    with False 1 show ?thesis by (simp add: ctz.simps [of n] bit_Suc)
  qed
qed

lemma below_ctz: "k < ctz n \<Longrightarrow> \<not> bit n k"
proof (induction n arbitrary: k rule: ctz.induct)
  case (1 n)
  from 1(2) have n0: "n \<noteq> 0" and ev: "even n" and c: "ctz n = Suc (ctz (n div 2))"
    by (auto simp: ctz.simps [of n] split: if_splits)
  show ?case
  proof (cases k)
    case 0
    with ev show ?thesis by (simp add: bit_0)
  next
    case (Suc k')
    with 1(2) c have "k' < ctz (n div 2)" by simp
    with 1(1) n0 ev have "\<not> bit (n div 2) k'" by simp
    with Suc show ?thesis by (simp add: bit_Suc)
  qed
qed

lemma bit_dec_nat: "n \<noteq> 0 \<Longrightarrow> bit (n - 1) k \<longleftrightarrow> k < ctz n \<or> (ctz n < k \<and> bit n k)"
proof (induction n arbitrary: k rule: ctz.induct)
  case (1 n)
  show ?case
  proof (cases "odd n")
    case True
    then have c: "ctz n = 0" by (simp add: ctz.simps [of n])
    from True have d: "(n - 1) div 2 = n div 2" "even (n - 1)" by (auto elim: oddE)
    show ?thesis using c d by (cases k) (simp_all add: bit_0 bit_Suc)
  next
    case False
    with 1(2) have c: "ctz n = Suc (ctz (n div 2))" by (simp add: ctz.simps [of n])
    from False 1(2) have m0: "n div 2 \<noteq> 0" by (auto elim: evenE)
    from False 1(2) have d: "(n - 1) div 2 = n div 2 - 1" "odd (n - 1)" by (auto elim!: evenE)
    show ?thesis
    proof (cases k)
      case 0
      with d c show ?thesis by (simp add: bit_0)
    next
      case (Suc k')
      from 1(1) [OF 1(2) False m0, of k'] Suc c d show ?thesis
        by (simp add: bit_Suc)
    qed
  qed
qed

lemma bit_lowest: "w \<noteq> 0 \<Longrightarrow> bit w (lowest w)"
  using bit_ctz [of "unat w"] by (simp add: lowest_def bit_unsigned_iff unat_eq_0)

lemma below_lowest: "k < lowest w \<Longrightarrow> \<not> bit w k"
  using below_ctz [of k "unat w"] by (auto simp: lowest_def bit_unsigned_iff dest: bit_imp_le_length)

lemma lowest_less: "w \<noteq> 0 \<Longrightarrow> lowest w < 32"
  using bit_lowest [of w] bit_imp_le_length [of w "lowest w"] by simp

lemma bit_dec_word:
  fixes w :: u32
  assumes "w \<noteq> 0"
  shows "bit (w - 1) k \<longleftrightarrow> k < 32 \<and> (k < lowest w \<or> (lowest w < k \<and> bit w k))"
proof -
  have "bit (w - 1) k \<longleftrightarrow> k < 32 \<and> bit (unat (w - 1)) k"
    by (auto simp: bit_unsigned_iff dest: bit_imp_le_length)
  also have "unat (w - 1) = unat w - 1" using assms by (simp add: unat_minus_one)
  also have "bit (unat w - 1) k \<longleftrightarrow> k < lowest w \<or> (lowest w < k \<and> bit w k)"
    using assms bit_dec_nat [of "unat w" k]
    by (auto simp: lowest_def bit_unsigned_iff unat_eq_0 dest: bit_imp_le_length)
  finally show ?thesis .
qed

lemma bit_clear_lowest:
  fixes w :: u32
  assumes "w \<noteq> 0"
  shows "bit (w AND (w - 1)) k \<longleftrightarrow> bit w k \<and> k \<noteq> lowest w"
  using below_lowest [of k w] bit_imp_le_length [of w k]
  by (auto simp: bit_and_iff bit_dec_word [OF assms])

lemma isolate_lowest:
  fixes w :: u32
  assumes "w \<noteq> 0"
  shows "w AND - w = 2 ^ lowest w"
proof (rule bit_word_eqI)
  fix k assume "k < LENGTH(32)"
  then show "bit (w AND - w) k = bit (2 ^ lowest w :: u32) k"
    using below_lowest [of k w] bit_lowest [OF assms] lowest_less [OF assms]
    by (auto simp: minus_eq_not_minus_1 bit_and_iff bit_not_iff bit_dec_word [OF assms]
        bit_push_bit_iff bit_1_iff bit_exp_iff)
qed

lemma clz_from_single:
  "j < 32 \<Longrightarrow> n \<le> 32 \<Longrightarrow> clz_from n (2 ^ j :: u32) = (if j < n then n - 1 - j else n)"
  by (induction n) (auto simp: bit_push_bit_iff bit_1_iff bit_exp_iff)

lemma tzcnt32_lowest: "w \<noteq> 0 \<Longrightarrow> tzcnt32 w = int (lowest w)"
  using lowest_less [of w]
  by (simp add: tzcnt32_def isolate_lowest clz32_def clz_from_single)

lemma bits_step:
  fixes w :: u32
  assumes "w \<noteq> 0"
  shows "filter (bit w) [0..<32] = lowest w # filter (bit (w AND (w - 1))) [0..<32]"
proof -
  let ?j = "lowest w" and ?w' = "w AND (w - 1)"
  have j: "?j < 32" by (rule lowest_less [OF assms])
  have split: "[0..<32] = [0..<?j] @ [?j] @ [Suc ?j..<32]"
  proof -
    have "[0..<32] = [0..<?j] @ [?j..<?j + (32 - ?j)]"
      using j upt_add_eq_append [of 0 ?j "32 - ?j"] by simp
    moreover have "[?j..<?j + (32 - ?j)] = ?j # [Suc ?j..<32]"
      using j by (simp add: upt_conv_Cons)
    ultimately show ?thesis by simp
  qed
  have a: "filter (bit w) [0..<?j] = []" "filter (bit ?w') [0..<?j] = []"
    by (auto simp: filter_empty_conv bit_clear_lowest [OF assms] dest: below_lowest)
  have b: "filter (bit w) [Suc ?j..<32] = filter (bit ?w') [Suc ?j..<32]"
    by (rule filter_cong) (auto simp: bit_clear_lowest [OF assms])
  show ?thesis
    unfolding split filter_append a b
    by (simp add: bit_lowest [OF assms] bit_clear_lowest [OF assms])
qed

lemma forEachBit_fold:
  "forEachBit body w s = fold body (map int (filter (bit w) [0..<32])) s"
proof (induction body w s rule: forEachBit.induct)
  case (1 body bits s)
  show ?case
  proof (cases "bits = 0")
    case True
    then show ?thesis by (simp add: forEachBit.simps [of body 0])
  next
    case False
    with 1 show ?thesis
      by (simp add: forEachBit.simps [of body bits] bits_step [OF False] tzcnt32_lowest)
  qed
qed

section \<open>Properties of typed arrays and of the BitSet operations\<close>

lemma u32_get_nth: "i < length xs \<Longrightarrow> u32_get xs (int i) = xs ! i"
  by (simp add: u32_get_def array_get_def)


lemma u32_get_neg: "i < 0 \<Longrightarrow> u32_get xs i = 0"
  by (simp add: u32_get_def array_get_def)

lemma length_u32_set [simp]: "length (u32_set xs i v) = length xs"
  by (simp add: u32_set_def)

lemma u32_get_set:
  "u32_get (u32_set xs i v) j = (if j = i \<and> 0 \<le> i \<and> nat i < length xs then v else u32_get xs j)"
  by (auto simp: u32_get_def u32_set_def array_get_def nth_list_update)

lemma u32_get_append_zeros: "u32_get (xs @ replicate n 0) i = u32_get xs i"
  by (auto simp: u32_get_def array_get_def nth_append)

lemma ushr5: "0 \<le> x \<Longrightarrow> x < 2 ^ 32 \<Longrightarrow> ushr x 5 = x div 32"
  by (simp add: ushr_def)

lemma bitOf_exp: "bitOf x = 2 ^ nat (x mod 32)"
  by (simp add: bitOf_def)

lemma and_bitOf: "(w :: u32) AND bitOf x \<noteq> 0 \<longleftrightarrow> bit w (nat (x mod 32))"
  by (simp add: bitOf_exp and_exp_eq_0_iff_not_bit)

lemma small_int_bits:
  assumes "0 \<le> (b :: int)" "b < 2 ^ m" "bit b n"
  shows "n < m"
proof -
  have "take_bit m b = b" using assms(1,2) by (simp add: take_bit_int_eq_self)
  with assms(3) have "bit (take_bit m b) n" by simp
  then show ?thesis by (simp add: bit_take_bit_iff)
qed

lemma sint_small: "0 \<le> y \<Longrightarrow> y < 2 ^ 31 \<Longrightarrow> sint (word_of_int y :: u32) = y"
  by (simp add: sint_sbintrunc' signed_take_bit_int_eq_self)

lemma shl5_or_small:
  assumes "0 \<le> x" "x < 2 ^ 26" "0 \<le> b" "b < 32"
  shows "shl5_or x b = x * 32 + b"
proof -
  have b5: "b < 2 ^ 5" using assms(4) by simp
  have nb: "n < 5" if "bit b n" for n
    using small_int_bits [OF assms(3) b5 that] .
  have "push_bit 5 x + b = push_bit 5 x OR b"
    by (rule disjunctive_add) (auto simp: bit_push_bit_iff dest: nb)
  then have o: "push_bit 5 x OR b = x * 32 + b"
    by (simp add: push_bit_eq_mult)
  have "push_bit 5 (word_of_int x :: u32) OR word_of_int b = word_of_int (push_bit 5 x OR b)"
    by (simp add: of_int_or_eq of_int_push_bit)
  then have "shl5_or x b = sint (word_of_int (x * 32 + b) :: u32)"
    by (simp add: shl5_or_def o)
  also have "\<dots> = x * 32 + b"
    using assms by (intro sint_small) auto
  finally show ?thesis .
qed

lemma keyBit_bound: "keyBit xs k \<Longrightarrow> k < 32 * length xs"
proof (rule ccontr)
  assume kb: "keyBit xs k" and "\<not> k < 32 * length xs"
  then have "length xs \<le> k div 32" by (simp add: less_mult_imp_div_less leI) 
  then have "u32_get xs (int (k div 32)) = 0" by (simp add: u32_get_def array_get_def)
  with kb show False by (simp add: keyBit_def)
qed


lemma keyBit_append_zeros [simp]: "keyBit (xs @ replicate n 0) k = keyBit xs k"
  by (simp add: keyBit_def u32_get_append_zeros)

lemma wf_keyBit_less: "bitSet_wf s \<Longrightarrow> keyBit (bottom s) k \<Longrightarrow> int k < capacity s"
  by (simp add: bitSet_wf_def)

lemma int_nat_div32: "0 \<le> key \<Longrightarrow> int (nat key div 32) = key div 32"
  by (simp add: zdiv_int)

lemma bitSet_has_keyBit:
  assumes "bitSet_wf s" "0 \<le> key"
  shows "bitSet_has s key \<longleftrightarrow> keyBit (bottom s) (nat key)"
proof (cases "key < capacity s")
  case True
  with assms have "key < 2 ^ 32" by (simp add: bitSet_wf_def)
  with assms True show ?thesis
    by (simp add: bitSet_has_def ushr5 and_bitOf keyBit_def int_nat_div32 nat_mod_distrib)
next
  case False
  with assms have "\<not> keyBit (bottom s) (nat key)"
    using wf_keyBit_less [of s "nat key"] by auto
  with False show ?thesis by (simp add: bitSet_has_def)
qed

lemma growCapacity_pos:
  assumes "0 < c"
  shows "\<exists>n. growCapacity c m = Some (c * 2 ^ n) \<and> m \<le> c * 2 ^ n \<and> (\<forall>j. m \<le> c * 2 ^ j \<longrightarrow> n \<le> j)"
  using assms
proof (induction "nat (m - c)" arbitrary: c rule: less_induct)
  case less
  show ?case
  proof (cases "c < m")
    case False
    then have "growCapacity c m = Some (c * 2 ^ 0)" by (simp add: growCapacity.simps [of c m])
    with False show ?thesis by (intro exI [of _ 0]) simp
  next
    case True
    with less.prems have "nat (m - c * 2) < nat (m - c)" by simp
    from less.hyps [OF this] less.prems obtain n
      where n: "growCapacity (c * 2) m = Some (c * 2 * 2 ^ n)" "m \<le> c * 2 * 2 ^ n"
        "\<forall>j. m \<le> c * 2 * 2 ^ j \<longrightarrow> n \<le> j" by auto
    have "\<forall>j. m \<le> c * 2 ^ j \<longrightarrow> Suc n \<le> j"
    proof (intro allI impI)
      fix j assume j: "m \<le> c * 2 ^ j"
      with True obtain j' where "j = Suc j'" by (cases j) auto
      with j n(3) show "Suc n \<le> j" by (auto simp: mult.assoc)
    qed
    with n True show ?thesis
      by (intro exI [of _ "Suc n"]) (simp add: growCapacity.simps [of c m] mult.assoc)
  qed
qed

lemma growCapacity_less_double:
  assumes "0 < c" "c < m" "growCapacity c m = Some c'"
  shows "c' < 2 * m" "m \<le> c'" "c \<le> c'"
proof -
  from growCapacity_pos [OF assms(1), of m] assms(3) obtain n
    where n: "c' = c * 2 ^ n" "m \<le> c * 2 ^ n" "\<forall>j. m \<le> c * 2 ^ j \<longrightarrow> n \<le> j" by auto
  from assms(2) n(2) obtain n' where n': "n = Suc n'" by (cases n) auto
  with n(3) have "\<not> m \<le> c * 2 ^ n'" by auto
  with n(1) n' show "c' < 2 * m" by simp
  from n show "m \<le> c'" by simp
  from assms(1) n(1) show "c \<le> c'" by (simp add: mult_le_cancel_left1)
qed

lemma typed_set_zeros:
  "length src \<le> nat n \<Longrightarrow>
   typed_set (new_Uint32Array n) src = Inr (src @ replicate (nat n - length src) 0)"
  by (simp add: typed_set_def new_Uint32Array_def)


lemma bit32_less: "bit (w :: u32) n \<Longrightarrow> n < 32"
  using bit_imp_le_length [of w n] by simp

lemma div_mod_key_eq: "(k :: nat) div 32 = k0 div 32 \<and> k mod 32 = k0 mod 32 \<longleftrightarrow> k = k0"
  by (metis div_mult_mod_eq)

lemma keyBit_set_or:
  assumes "k0 div 32 < length xs"
  shows "keyBit (u32_set xs (int (k0 div 32)) (u32_get xs (int (k0 div 32)) OR 2 ^ (k0 mod 32))) k
     \<longleftrightarrow> k = k0 \<or> keyBit xs k"
proof (cases "k div 32 = k0 div 32")
  case True
  with assms show ?thesis
    using div_mod_key_eq [of k k0]
    by (auto simp: keyBit_def u32_get_set bit_or_iff bit_exp_iff)
next
  case False
  then have "k \<noteq> k0" by auto
  with False show ?thesis by (simp add: keyBit_def u32_get_set)
qed


lemma word_nonzero_iff: "(w :: u32) \<noteq> 0 \<longleftrightarrow> (\<exists>j < 32. bit w j)"
proof
  assume "w \<noteq> 0"
  show "\<exists>j < 32. bit w j"
  proof (rule ccontr)
    assume "\<not> (\<exists>j < 32. bit w j)"
    then have "w = 0" by (intro bit_word_eqI) auto
    with \<open>w \<noteq> 0\<close> show False by simp
  qed
next
  assume "\<exists>j < 32. bit w j"
  then show "w \<noteq> 0" by auto
qed

lemma u32_get_nonzero_iff: "u32_get xs (int i) \<noteq> 0 \<longleftrightarrow> (\<exists>j < 32. keyBit xs (i * 32 + j))"
proof -
  have "keyBit xs (i * 32 + j) = bit (u32_get xs (int i)) j" if "j < 32" for j
    using that by (simp add: keyBit_def)
  then show ?thesis by (auto simp: word_nonzero_iff)
qed

lemma finite_keys: "finite {k. keyBit xs k}"
proof (rule finite_subset)
  show "{k. keyBit xs k} \<subseteq> {..<32 * length xs}" by (auto dest: keyBit_bound)
qed simp


lemma bitSet_grow_wf:
  assumes wf: "bitSet_wf s" and ge: "capacity s \<le> key" and lt: "key < 2 ^ 30"
  obtains s1 n where "bitSet_grow s (key + 1) = Some (Inr s1)"
    and "bitSet_wf s1" and "key < capacity s1"
    and "capacity s1 = capacity s * 2 ^ n" and "\<forall>j. key + 1 \<le> capacity s * 2 ^ j \<longrightarrow> n \<le> j"
    and "\<And>k. keyBit (bottom s1) k = keyBit (bottom s) k"
    and "\<And>i. u32_get (bottom s1) i = u32_get (bottom s) i"
proof -
  from wf have pos: "0 < capacity s" by (simp add: bitSet_wf_def)
  from growCapacity_pos [OF pos, of "key + 1"] obtain n
    where n: "growCapacity (capacity s) (key + 1) = Some (capacity s * 2 ^ n)"
      "key + 1 \<le> capacity s * 2 ^ n" "\<forall>j. key + 1 \<le> capacity s * 2 ^ j \<longrightarrow> n \<le> j"
    by auto
  define c' where "c' = capacity s * 2 ^ n"
  from growCapacity_less_double [OF pos _ n(1)] ge
  have c'b: "c' < 2 * (key + 1)" "capacity s \<le> c'" by (simp_all add: c'_def)
  with lt have c'31: "c' \<le> 2 ^ 31" by simp
  from pos c'b have c'pos: "0 < c'" by simp
  define nb where "nb = (c' + 31) div 32"
  define nt where "nt = (nb + 31) div 32"
  have nb: "ushr (c' + 31) 5 = nb" using c'pos c'31 by (simp add: ushr5 nb_def)
  have nb0: "0 \<le> nb" "nb < 2 ^ 27" using c'pos c'31 by (simp_all add: nb_def)
  have nt: "ushr (nb + 31) 5 = nt" using nb0 by (simp add: ushr5 nt_def)
  have lb: "int (length (bottom s)) \<le> nb"
    using wf c'b by (simp add: bitSet_wf_def nb_def zdiv_mono1)
  then have lt': "int (length (top' s)) \<le> nt"
    using wf by (simp add: bitSet_wf_def nt_def zdiv_mono1)
  define s1 where "s1 = s\<lparr>bottom := bottom s @ replicate (nat nb - length (bottom s)) 0,
     top' := top' s @ replicate (nat nt - length (top' s)) 0, capacity := c'\<rparr>"
  have g: "bitSet_grow s (key + 1) = Some (Inr s1)"
    using lb lt' nb0
    by (simp add: bitSet_grow_def n(1) c'_def [symmetric] nb nt typed_set_zeros s1_def)
  have kb: "keyBit (bottom s1) k = keyBit (bottom s) k" for k
    by (simp add: s1_def)
  have "topSummarizesBottom s1"
    using wf by (simp add: bitSet_wf_def topSummarizesBottom_def s1_def u32_get_append_zeros)
  moreover have "\<forall>k. keyBit (bottom s1) k \<longrightarrow> int k < capacity s1"
    using wf c'b(2) by (auto simp: kb s1_def dest!: wf_keyBit_less)
  moreover have "count s1 = int (card {k. keyBit (bottom s1) k})"
    using wf by (simp add: kb bitSet_wf_def s1_def)
  moreover have "int (length (bottom s1)) = (capacity s1 + 31) div 32"
    using lb nb0 by (simp add: s1_def nb_def)
  moreover have "int (length (top' s1)) = (int (length (bottom s1)) + 31) div 32"
    using lb lt' nb0 by (simp add: s1_def nt_def)
  ultimately have wf1: "bitSet_wf s1"
    using c'pos c'31 by (simp add: bitSet_wf_def s1_def)
  show thesis
    by (rule that [OF g wf1 _ _ n(3) kb])
       (use n(2) in \<open>simp_all add: s1_def c'_def u32_get_append_zeros\<close>)
qed


lemma div32_less_words: "int i < m \<Longrightarrow> int n = (m + 31) div 32 \<Longrightarrow> i div 32 < n"
proof -
  assume a: "int i < m" and n: "int n = (m + 31) div 32"
  have "int (i div 32) + 1 = (int i + 32) div 32" by (simp add: zdiv_int)
  also have "\<dots> \<le> (m + 31) div 32" using a by (intro zdiv_mono1) simp_all
  finally have "int (i div 32) < int n" using n by simp
  then show ?thesis by simp
qed

lemma wf_word_index:
  assumes wf: "bitSet_wf s" and key: "0 \<le> key" "key < capacity s"
  shows "ushr key 5 = int (nat key div 32)" and "bitOf key = 2 ^ (nat key mod 32)"
    and "nat key div 32 < length (bottom s)"
    and "ushr (int (nat key div 32)) 5 = int (nat key div 32 div 32)"
    and "bitOf (int (nat key div 32)) = 2 ^ (nat key div 32 mod 32)"
    and "nat key div 32 div 32 < length (top' s)"
proof -
  from wf key have k32: "key < 2 ^ 32" by (simp add: bitSet_wf_def)
  with key show "ushr key 5 = int (nat key div 32)" by (simp add: ushr5 int_nat_div32)
  from key show "bitOf key = 2 ^ (nat key mod 32)" by (simp add: bitOf_exp nat_mod_distrib)
  show l: "nat key div 32 < length (bottom s)"
    using wf key by (intro div32_less_words [of _ "capacity s"]) (simp_all add: bitSet_wf_def)
  have "int (nat key div 32) < 2 ^ 32" "0 \<le> int (nat key div 32)"
    using key k32 by (simp_all add: int_nat_div32)
  then have "ushr (int (nat key div 32)) 5 = int (nat key div 32) div 32"
    by (rule ushr5 [rotated])
  then show "ushr (int (nat key div 32)) 5 = int (nat key div 32 div 32)"
    by (simp add: zdiv_int)
  show "bitOf (int (nat key div 32)) = 2 ^ (nat key div 32 mod 32)"
    by (simp add: bitOf_exp nat_mod_distrib zmod_int [symmetric])
  show "nat key div 32 div 32 < length (top' s)"
    using wf l by (intro div32_less_words [of _ "int (length (bottom s))"]) (simp_all add: bitSet_wf_def)
qed

lemma bitSet_add_bit_wf:
  assumes wf: "bitSet_wf s" and key: "0 \<le> key" "key < capacity s"
  shows "bitSet_wf (snd (bitSet_add_bit s key))"
    and "fst (bitSet_add_bit s key) \<longleftrightarrow> \<not> keyBit (bottom s) (nat key)"
    and "keyBit (bottom (snd (bitSet_add_bit s key))) k \<longleftrightarrow> k = nat key \<or> keyBit (bottom s) k"
    and "capacity (snd (bitSet_add_bit s key)) = capacity s"
proof -
  note ix = wf_word_index [OF wf key]
  let ?k0 = "nat key"
  have present: "u32_get (bottom s) (int (?k0 div 32)) AND 2 ^ (?k0 mod 32) \<noteq> 0 \<longleftrightarrow> keyBit (bottom s) ?k0"
    by (simp add: keyBit_def and_exp_eq_0_iff_not_bit)
  show "fst (bitSet_add_bit s key) \<longleftrightarrow> \<not> keyBit (bottom s) (nat key)"
    using present by (simp add: bitSet_add_bit_def ix Let_def)
  show kb: "keyBit (bottom (snd (bitSet_add_bit s key))) k \<longleftrightarrow> k = nat key \<or> keyBit (bottom s) k" for k
    using present keyBit_set_or [OF ix(3), of k]
    by (auto simp: bitSet_add_bit_def ix Let_def)
  show "capacity (snd (bitSet_add_bit s key)) = capacity s"
    by (simp add: bitSet_add_bit_def Let_def)
  show "bitSet_wf (snd (bitSet_add_bit s key))"
  proof (cases "keyBit (bottom s) ?k0")
    case True
    with present wf show ?thesis by (simp add: bitSet_add_bit_def ix Let_def)
  next
    case False
    define s1 where "s1 = snd (bitSet_add_bit s key)"
    have b1: "bottom s1 = u32_set (bottom s) (int (?k0 div 32))
        (u32_get (bottom s) (int (?k0 div 32)) OR 2 ^ (?k0 mod 32))"
      and t1: "top' s1 = u32_set (top' s) (int (?k0 div 32 div 32))
        (u32_get (top' s) (int (?k0 div 32 div 32)) OR 2 ^ (?k0 div 32 mod 32))"
      and c1: "count s1 = count s + 1" and cap1: "capacity s1 = capacity s"
      using False present by (simp_all add: s1_def bitSet_add_bit_def ix Let_def)
    have kb1: "keyBit (bottom s1) k \<longleftrightarrow> k = ?k0 \<or> keyBit (bottom s) k" for k
      using kb [of k] by (simp add: s1_def)
    have kt1: "keyBit (top' s1) i \<longleftrightarrow> i = ?k0 div 32 \<or> keyBit (top' s) i" for i
      unfolding t1 by (rule keyBit_set_or [OF ix(6)])
    have ts: "topSummarizesBottom s1"
      unfolding topSummarizesBottom_def
    proof
      fix i
      show "keyBit (top' s1) i \<longleftrightarrow> u32_get (bottom s1) (int i) \<noteq> 0"
      proof (cases "i = ?k0 div 32")
        case True
        have "bit (u32_get (bottom s1) (int i)) (?k0 mod 32)"
          using True ix(3) by (simp add: b1 u32_get_set bit_or_iff bit_exp_iff)
        then have "u32_get (bottom s1) (int i) \<noteq> 0" by auto
        with True show ?thesis by (simp add: kt1)
      next
        case False
        then have "u32_get (bottom s1) (int i) = u32_get (bottom s) (int i)"
          by (simp add: b1 u32_get_set)
        with False wf show ?thesis
          by (simp add: kt1 bitSet_wf_def topSummarizesBottom_def)
      qed
    qed
    have "{k. keyBit (bottom s1) k} = insert ?k0 {k. keyBit (bottom s) k}"
      by (auto simp: kb1)
    then have "card {k. keyBit (bottom s1) k} = Suc (card {k. keyBit (bottom s) k})"
      using False by (simp add: finite_keys)
    then have cnt: "count s1 = int (card {k. keyBit (bottom s1) k})"
      using wf by (simp add: c1 bitSet_wf_def)
    have "\<forall>k. keyBit (bottom s1) k \<longrightarrow> int k < capacity s1"
      using wf key by (auto simp: kb1 cap1 dest: wf_keyBit_less)
    with ts cnt wf show ?thesis
      unfolding s1_def [symmetric] by (simp add: bitSet_wf_def cap1 b1 t1)
  qed
qed


lemma bitSet_add_wf:
  assumes wf: "bitSet_wf s" and key: "0 \<le> key" "key < capacity s \<or> key < 2 ^ 30"
  obtains r s' where "bitSet_add s key = Some (Inr (r, s'))" and "bitSet_wf s'"
    and "r \<longleftrightarrow> \<not> keyBit (bottom s) (nat key)"
    and "\<And>k. keyBit (bottom s') k \<longleftrightarrow> k = nat key \<or> keyBit (bottom s) k"
    and "capacity s \<le> capacity s'"
proof (cases "key < capacity s")
  case True
  show thesis
  proof (rule that)
    show "bitSet_add s key = Some (Inr (fst (bitSet_add_bit s key), snd (bitSet_add_bit s key)))"
      using True by (simp add: bitSet_add_def)
  qed (use bitSet_add_bit_wf [OF wf key(1) True] in simp_all)
next
  case False
  with key have ge: "capacity s \<le> key" and lt: "key < 2 ^ 30" by auto
  from bitSet_grow_wf [OF wf ge lt] obtain s1 where
    g: "bitSet_grow s (key + 1) = Some (Inr s1)" and wf1: "bitSet_wf s1"
    and k1: "key < capacity s1" and kb: "\<And>k. keyBit (bottom s1) k = keyBit (bottom s) k"
    by metis
  show thesis
  proof (rule that)
    show "bitSet_add s key = Some (Inr (fst (bitSet_add_bit s1 key), snd (bitSet_add_bit s1 key)))"
      using False by (simp add: bitSet_add_def g)
    show "capacity s \<le> capacity (snd (bitSet_add_bit s1 key))"
      using bitSet_add_bit_wf(4) [OF wf1 key(1) k1] ge k1 by simp
  qed (use bitSet_add_bit_wf [OF wf1 key(1) k1] kb in simp_all)
qed


lemma keyBit_zeros [simp]: "keyBit (map (\<lambda>_. 0) xs) k = False" "keyBit (replicate n 0) k = False"
  by (simp_all add: keyBit_def u32_get_def array_get_def)


lemma new_BitSet_wf:
  assumes "0 < cap" "cap \<le> 2 ^ 31"
  shows "bitSet_wf (new_BitSet cap)" and "\<not> keyBit (bottom (new_BitSet cap)) k"
proof -
  have a: "ushr (cap + 31) 5 = (cap + 31) div 32" using assms by (simp add: ushr5)
  have "0 \<le> (cap + 31) div 32" "(cap + 31) div 32 < 2 ^ 27" using assms by simp_all
  then have b: "ushr ((cap + 31) div 32 + 31) 5 = ((cap + 31) div 32 + 31) div 32"
    by (simp add: ushr5)
  show "\<not> keyBit (bottom (new_BitSet cap)) k"
    by (simp add: new_BitSet_def Let_def new_Uint32Array_def)
  show "bitSet_wf (new_BitSet cap)"
    using assms
    by (simp add: bitSet_wf_def new_BitSet_def a b Let_def new_Uint32Array_def
        topSummarizesBottom_def u32_get_def array_get_def)
qed

section \<open>The set operations visit the keys in ascending order\<close>

lemma fold_fold_concat: "fold (\<lambda>x. fold f (g x)) xs s = fold f (concat (map g xs)) s"
  by (induction xs arbitrary: s) simp_all

lemma fold_cong_set: "(\<And>x. x \<in> set xs \<Longrightarrow> f x = g x) \<Longrightarrow> fold f xs = fold g xs"
  by (rule ext) (rule fold_cong, simp_all)

lemma bottom_scan:
  assumes "bi < 2 ^ 26"
  shows "forEachBit (\<lambda>bottomBit. fn (shl5_or (int bi) bottomBit)) w s
     = fold fn (map int (keysOfWord bi w)) s"
proof -
  have "forEachBit (\<lambda>b. fn (shl5_or (int bi) b)) w s
      = fold (\<lambda>j. fn (shl5_or (int bi) (int j))) (filter (bit w) [0..<32]) s"
    by (simp add: forEachBit_fold fold_map comp_def)
  also have "fold (\<lambda>j. fn (shl5_or (int bi) (int j))) (filter (bit w) [0..<32])
      = fold (\<lambda>j. fn (int (bi * 32 + j))) (filter (bit w) [0..<32])"
  proof (rule fold_cong_set)
    fix j assume "j \<in> set (filter (bit w) [0..<32])"
    then have "j < 32" by simp
    with assms have "shl5_or (int bi) (int j) = int bi * 32 + int j"
      by (intro shl5_or_small) simp_all
    then show "fn (shl5_or (int bi) (int j)) = fn (int (bi * 32 + j))" by simp
  qed
  finally show ?thesis by (simp add: keysOfWord_def fold_map comp_def)
qed

lemma scan2_fold:
  assumes n: "n \<le> 2 ^ 21"
    and inner: "\<And>ti j. ti < n \<Longrightarrow> j < 32 \<Longrightarrow> bit (T ti) j \<Longrightarrow>
       inner (int (ti * 32 + j)) = fold fn (map int (keysOfWord (ti * 32 + j) (W (ti * 32 + j))))"
  shows "scan2 n T inner s = fold fn (map int (scanKeys n T W)) s"
proof -
  have top: "forEachBit (\<lambda>topBit. inner (shl5_or (int ti) topBit)) (T ti)
      = fold fn (map int (concat (map (\<lambda>j. keysOfWord (ti * 32 + j) (W (ti * 32 + j)))
           (filter (bit (T ti)) [0..<32]))))" if ti: "ti < n" for ti
  proof
    fix s
    have "forEachBit (\<lambda>topBit. inner (shl5_or (int ti) topBit)) (T ti) s
        = fold (\<lambda>j. inner (shl5_or (int ti) (int j))) (filter (bit (T ti)) [0..<32]) s"
      by (simp add: forEachBit_fold fold_map comp_def)
    also have "fold (\<lambda>j. inner (shl5_or (int ti) (int j))) (filter (bit (T ti)) [0..<32])
        = fold (\<lambda>j. fold fn (map int (keysOfWord (ti * 32 + j) (W (ti * 32 + j)))))
            (filter (bit (T ti)) [0..<32])"
    proof (rule fold_cong_set)
      fix j assume "j \<in> set (filter (bit (T ti)) [0..<32])"
      then have j: "j < 32" "bit (T ti) j" by simp_all
      from ti n have "int ti < 2 ^ 26" by simp
      with j have "shl5_or (int ti) (int j) = int ti * 32 + int j"
        by (intro shl5_or_small) simp_all
      with inner [OF ti j] show "inner (shl5_or (int ti) (int j))
          = fold fn (map int (keysOfWord (ti * 32 + j) (W (ti * 32 + j))))" by simp
    qed
    finally show "forEachBit (\<lambda>topBit. inner (shl5_or (int ti) topBit)) (T ti) s
        = fold fn (map int (concat (map (\<lambda>j. keysOfWord (ti * 32 + j) (W (ti * 32 + j)))
           (filter (bit (T ti)) [0..<32])))) s"
      by (simp add: fold_fold_concat map_concat comp_def)
  qed
  have "scan2 n T inner
      = fold (\<lambda>ti. fold fn (map int (concat (map (\<lambda>j. keysOfWord (ti * 32 + j) (W (ti * 32 + j)))
           (filter (bit (T ti)) [0..<32]))))) [0..<n]"
    unfolding scan2_def by (rule fold_cong_set) (simp add: top)
  then show ?thesis
    by (simp add: fold_fold_concat scanKeys_def map_concat comp_def)
qed

lemma blocks_filter:
  "concat (map (\<lambda>i. filter P [i * m..<i * m + m]) [0..<n]) = filter P [0..<n * m]"
proof (induction n)
  case 0
  show ?case by simp
next
  case (Suc n)
  have "[0..<Suc n * m] = [0..<n * m] @ [n * m..<n * m + m]"
    using upt_add_eq_append [of 0 "n * m" m] by (simp add: add.commute)
  with Suc show ?case by simp
qed

lemma blocks_upt: "concat (map (\<lambda>i. [i * m..<i * m + m]) [0..<n]) = [0..<n * m]"
  using blocks_filter [of "\<lambda>_. True" m n] by simp

lemma concat_map_filter_drop:
  "(\<And>x. x \<in> set xs \<Longrightarrow> \<not> Q x \<Longrightarrow> F x = []) \<Longrightarrow> concat (map F (filter Q xs)) = concat (map F xs)"
  by (induction xs) auto

lemma concat_map_blocks:
  "concat (map (\<lambda>x. concat (map F (g x))) xs) = concat (map F (concat (map g xs)))"
  by (induction xs) simp_all

lemma block_shift: "map (\<lambda>j. i * 32 + j) [0..<32] = [i * 32..<i * 32 + 32]"
  using map_add_upt [of "i * 32" 32] by (simp add: add.commute)

lemma keysOfWord_filter:
  "keysOfWord i (W i) = filter (\<lambda>k. bit (W (k div 32)) (k mod 32)) [i * 32..<i * 32 + 32]"
proof -
  have "filter (\<lambda>k. bit (W (k div 32)) (k mod 32)) (map (\<lambda>j. i * 32 + j) [0..<32])
      = map (\<lambda>j. i * 32 + j) (filter (\<lambda>j. bit (W ((i * 32 + j) div 32)) ((i * 32 + j) mod 32)) [0..<32])"
    by (simp add: filter_map comp_def)
  also have "filter (\<lambda>j. bit (W ((i * 32 + j) div 32)) ((i * 32 + j) mod 32)) [0..<32]
      = filter (bit (W i)) [0..<32]"
    by (rule filter_cong) auto
  finally show ?thesis by (simp add: keysOfWord_def block_shift)
qed

lemma keysOfWord_zero: "keysOfWord i 0 = []"
  by (simp add: keysOfWord_def)

lemma scanKeys_filter:
  assumes "\<And>ti j. ti < n \<Longrightarrow> j < 32 \<Longrightarrow> W (ti * 32 + j) \<noteq> 0 \<Longrightarrow> bit (T ti) j"
  shows "scanKeys n T W = filter (\<lambda>k. bit (W (k div 32)) (k mod 32)) [0..<n * 1024]"
proof -
  let ?P = "\<lambda>k. bit (W (k div 32)) (k mod 32)"
  let ?F = "\<lambda>i. filter ?P [i * 32..<i * 32 + 32]"
  have row: "concat (map (\<lambda>j. keysOfWord (ti * 32 + j) (W (ti * 32 + j))) (filter (bit (T ti)) [0..<32]))
      = concat (map ?F [ti * 32..<ti * 32 + 32])" if "ti < n" for ti
  proof -
    have "concat (map (\<lambda>j. keysOfWord (ti * 32 + j) (W (ti * 32 + j))) (filter (bit (T ti)) [0..<32]))
        = concat (map (\<lambda>j. keysOfWord (ti * 32 + j) (W (ti * 32 + j))) [0..<32])"
    proof (rule concat_map_filter_drop)
      fix j assume "j \<in> set [0..<32]" "\<not> bit (T ti) j"
      with assms [OF that, of j] have "W (ti * 32 + j) = 0" by auto
      then show "keysOfWord (ti * 32 + j) (W (ti * 32 + j)) = []" by (simp add: keysOfWord_zero)
    qed
    also have "\<dots> = concat (map (?F \<circ> (\<lambda>j. ti * 32 + j)) [0..<32])"
      by (simp add: keysOfWord_filter comp_def)
    also have "\<dots> = concat (map ?F [ti * 32..<ti * 32 + 32])"
      by (simp only: map_map [symmetric] block_shift)
    finally show ?thesis .
  qed
  have "scanKeys n T W = concat (map (\<lambda>ti. concat (map ?F [ti * 32..<ti * 32 + 32])) [0..<n])"
    unfolding scanKeys_def by (rule arg_cong [where f = concat]) (simp add: row)
  also have "\<dots> = concat (map ?F (concat (map (\<lambda>ti. [ti * 32..<ti * 32 + 32]) [0..<n])))"
    by (rule concat_map_blocks)
  also have "\<dots> = concat (map ?F [0..<n * 32])"
    by (simp only: blocks_upt)
  also have "\<dots> = filter ?P [0..<n * 32 * 32]"
    by (rule blocks_filter)
  finally show ?thesis by (simp add: mult.commute)
qed

lemma wf_top_length: "bitSet_wf s \<Longrightarrow> length (top' s) \<le> 2 ^ 21"
proof -
  assume wf: "bitSet_wf s"
  then have "int (length (bottom s)) \<le> (2 ^ 31 + 31) div 32"
    unfolding bitSet_wf_def by (metis zdiv_mono1 add_right_mono zero_less_numeral)
  then have "int (length (bottom s)) \<le> 2 ^ 26" by simp
  then have "(int (length (bottom s)) + 31) div 32 \<le> (2 ^ 26 + 31) div 32"
    by (intro zdiv_mono1) simp_all
  with wf have "int (length (top' s)) \<le> 2 ^ 21" by (simp add: bitSet_wf_def)
  then show ?thesis by simp
qed

lemma keyBit_top_nth: "ti < length xs \<Longrightarrow> j < 32 \<Longrightarrow> keyBit xs (ti * 32 + j) = bit (xs ! ti) j"
  by (simp add: keyBit_def u32_get_nth)

lemma wf_top_bit:
  assumes "bitSet_wf s" "ti < length (top' s)" "j < 32"
  shows "bit (top' s ! ti) j \<longleftrightarrow> u32_get (bottom s) (int (ti * 32 + j)) \<noteq> 0"
  using assms keyBit_top_nth [of ti "top' s" j]
  by (simp add: bitSet_wf_def topSummarizesBottom_def)

lemma wf_keyBit_top_bound:
  assumes "bitSet_wf s" "keyBit (bottom s) k"
  shows "k < length (top' s) * 1024"
proof -
  from assms(2) have "u32_get (bottom s) (int (k div 32)) \<noteq> 0" by (auto simp: keyBit_def)
  with assms(1) have "keyBit (top' s) (k div 32)"
    by (simp add: bitSet_wf_def topSummarizesBottom_def)
  then have "k div 32 < 32 * length (top' s)" by (rule keyBit_bound)
  then show ?thesis by simp
qed

lemma key_list:
  assumes "\<And>m. P m \<Longrightarrow> m < N"
  shows "sorted_wrt (<) (map int (filter P [0..<N]))"
    and "set (map int (filter P [0..<N])) = {k. 0 \<le> k \<and> P (nat k)}"
proof -
  have "sorted_wrt (<) (filter P [0..<N])"
    by (intro sorted_wrt_filter) (simp add: sorted_wrt_upt)
  then show "sorted_wrt (<) (map int (filter P [0..<N]))"
    by (simp add: sorted_wrt_map)
  show "set (map int (filter P [0..<N])) = {k. 0 \<le> k \<and> P (nat k)}"
  proof (intro equalityI subsetI)
    fix k assume "k \<in> set (map int (filter P [0..<N]))"
    then show "k \<in> {k. 0 \<le> k \<and> P (nat k)}" by auto
  next
    fix k assume "k \<in> {k. 0 \<le> k \<and> P (nat k)}"
    then have "0 \<le> k" "P (nat k)" by simp_all
    with assms [of "nat k"] have "nat k \<in> set (filter P [0..<N])" by simp
    then have "int (nat k) \<in> int ` set (filter P [0..<N])" by (rule imageI)
    with \<open>0 \<le> k\<close> show "k \<in> set (map int (filter P [0..<N]))" by simp
  qed
qed

lemma bitSetAnd_keys:
  assumes wfa: "bitSet_wf a" and wfb: "bitSet_wf b"
  shows "bitSetAnd a b fn st = fold fn (map int (filter (\<lambda>k. keyBit (bottom a) k \<and> keyBit (bottom b) k)
      [0..<min (length (top' a)) (length (top' b)) * 1024])) st"
proof -
  let ?n = "min (length (top' a)) (length (top' b))"
  let ?T = "\<lambda>ti. top' a ! ti AND top' b ! ti"
  let ?W = "\<lambda>i. u32_get (bottom a) (int i) AND u32_get (bottom b) (int i)"
  let ?inner = "\<lambda>bottomIdx. forEachBit (\<lambda>bottomBit. fn (shl5_or bottomIdx bottomBit))
        (u32_get (bottom a) bottomIdx AND u32_get (bottom b) bottomIdx)"
  have n: "?n \<le> 2 ^ 21" using wf_top_length [OF wfa] by simp
  have "bitSetAnd a b fn st = scan2 ?n ?T ?inner st"
    by (simp add: bitSetAnd_def scan2_def Let_def)
  also have "\<dots> = fold fn (map int (scanKeys ?n ?T ?W)) st"
  proof (rule scan2_fold [OF n])
    fix ti j :: nat assume ti: "ti < ?n" and "j < 32"
    from ti n have "ti < 2 ^ 21" by (rule less_le_trans)
    with \<open>j < 32\<close> have "ti * 32 + j < 2 ^ 26" by simp
    then show "?inner (int (ti * 32 + j)) = fold fn (map int (keysOfWord (ti * 32 + j) (?W (ti * 32 + j))))"
      by (intro ext bottom_scan)
  qed
  also have "scanKeys ?n ?T ?W = filter (\<lambda>k. bit (?W (k div 32)) (k mod 32)) [0..<?n * 1024]"
  proof (rule scanKeys_filter)
    fix ti j :: nat assume ti: "ti < ?n" and j: "j < 32" and nz: "?W (ti * 32 + j) \<noteq> 0"
    from nz have "u32_get (bottom a) (int (ti * 32 + j)) \<noteq> 0" "u32_get (bottom b) (int (ti * 32 + j)) \<noteq> 0"
      by auto
    with ti j show "bit (?T ti) j"
      by (simp add: bit_and_iff wf_top_bit [OF wfa] wf_top_bit [OF wfb])
  qed
  finally show ?thesis by (simp add: keyBit_def bit_and_iff)
qed


lemma bitSet_forEach_keys:
  assumes wf: "bitSet_wf s"
  shows "bitSet_forEach s fn st = fold fn (map int (filter (keyBit (bottom s)) [0..<length (top' s) * 1024])) st"
proof -
  let ?n = "length (top' s)"
  let ?T = "\<lambda>ti. top' s ! ti"
  let ?W = "\<lambda>i. u32_get (bottom s) (int i)"
  let ?inner = "\<lambda>bottomIdx. case array_get (bottom s) bottomIdx of
       None \<Rightarrow> fn (- 1)
     | Some bottomBits \<Rightarrow> forEachBit (\<lambda>bottomBit. fn (shl5_or bottomIdx bottomBit)) bottomBits"
  have n: "?n \<le> 2 ^ 21" by (rule wf_top_length [OF wf])
  have "bitSet_forEach s fn st = scan2 ?n ?T ?inner st"
    by (simp add: bitSet_forEach_def scan2_def Let_def)
  also have "\<dots> = fold fn (map int (scanKeys ?n ?T ?W)) st"
  proof (rule scan2_fold [OF n])
    fix ti j :: nat assume ti: "ti < ?n" and j: "j < 32" and b: "bit (?T ti) j"
    from ti n have "ti < 2 ^ 21" by (rule less_le_trans)
    with j have lt: "ti * 32 + j < 2 ^ 26" by simp
    from b ti j have nz: "u32_get (bottom s) (int (ti * 32 + j)) \<noteq> 0"
      by (simp add: wf_top_bit [OF wf])
    then have "array_get (bottom s) (int (ti * 32 + j)) = Some (?W (ti * 32 + j))"
      by (auto simp: u32_get_def split: option.splits)
    then show "?inner (int (ti * 32 + j)) = fold fn (map int (keysOfWord (ti * 32 + j) (?W (ti * 32 + j))))"
      using bottom_scan [OF lt, of fn] by (simp only: option.case) auto
  qed
  also have "scanKeys ?n ?T ?W = filter (\<lambda>k. bit (?W (k div 32)) (k mod 32)) [0..<?n * 1024]"
  proof (rule scanKeys_filter)
    fix ti j :: nat assume ti: "ti < ?n" and j: "j < 32" and nz: "?W (ti * 32 + j) \<noteq> 0"
    with ti j show "bit (?T ti) j" by (simp add: wf_top_bit [OF wf])
  qed
  finally show ?thesis by (simp add: keyBit_def [abs_def])
qed

lemma fold_snoc_trace: "fold (\<lambda>k r. r @ [k]) ks r0 = r0 @ ks"
  by (induction ks arbitrary: r0) simp_all

lemma fold_add_wf:
  assumes "bitSet_wf s" and "\<forall>k \<in> set keys. 0 \<le> k \<and> k < 2 ^ 30"
  shows "bitSet_wf (fold (\<lambda>k s. case bitSet_add s k of Some (Inr (_, s')) \<Rightarrow> s' | _ \<Rightarrow> s) keys s)
    \<and> (\<forall>k. keyBit (bottom (fold (\<lambda>k s. case bitSet_add s k of Some (Inr (_, s')) \<Rightarrow> s' | _ \<Rightarrow> s) keys s)) k
          \<longleftrightarrow> int k \<in> set keys \<or> keyBit (bottom s) k)"
  using assms
proof (induction keys arbitrary: s)
  case Nil
  then show ?case by simp
next
  case (Cons key keys)
  from Cons.prems have key: "0 \<le> key" "key < capacity s \<or> key < 2 ^ 30" by auto
  from bitSet_add_wf [OF Cons.prems(1) key] obtain r s' where
    a: "bitSet_add s key = Some (Inr (r, s'))" and wf': "bitSet_wf s'"
    and kb: "\<And>k. keyBit (bottom s') k \<longleftrightarrow> k = nat key \<or> keyBit (bottom s) k"
    by metis
  from Cons.IH [OF wf'] Cons.prems(2) key(1) show ?case
    by (auto simp: a kb)
qed

lemma bitSet_of_keys_wf:
  assumes "\<forall>k \<in> set keys. 0 \<le> k \<and> k < 2 ^ 30"
  shows "bitSet_wf (bitSet_of_keys keys)"
    and "0 \<le> k \<Longrightarrow> bitSet_has (bitSet_of_keys keys) k \<longleftrightarrow> k \<in> set keys"
proof -
  have wf0: "bitSet_wf (new_BitSet INITIAL_CAPACITY)"
    and e0: "\<And>k. \<not> keyBit (bottom (new_BitSet INITIAL_CAPACITY)) k"
    by (simp_all add: INITIAL_CAPACITY_def new_BitSet_wf)
  from fold_add_wf [OF wf0 assms] e0
  have wf: "bitSet_wf (bitSet_of_keys keys)"
    and kb: "\<And>k. keyBit (bottom (bitSet_of_keys keys)) k \<longleftrightarrow> int k \<in> set keys"
    by (simp_all add: bitSet_of_keys_def)
  show "bitSet_wf (bitSet_of_keys keys)" by (rule wf)
  show "bitSet_has (bitSet_of_keys keys) k \<longleftrightarrow> k \<in> set keys" if "0 \<le> k"
    using that by (simp add: bitSet_has_keyBit [OF wf] kb)
qed

lemma strictly_sorted_unique:
  "sorted_wrt (<) xs \<Longrightarrow> sorted_wrt (<) ys \<Longrightarrow> set xs = set ys \<Longrightarrow> xs = (ys :: int list)"
  by (rule sorted_distinct_set_unique)
     (simp_all add: strict_sorted_iff)


lemma fold_collect:
  assumes "bitSet_wf s" and "\<forall>k \<in> set keys. 0 \<le> k \<and> k < capacity s"
  shows "\<exists>s'. fold collectInto keys (Some s) = Some s' \<and> bitSet_wf s'
     \<and> capacity s' = capacity s
     \<and> (\<forall>k. keyBit (bottom s') k \<longleftrightarrow> int k \<in> set keys \<or> keyBit (bottom s) k)"
  using assms
proof (induction keys arbitrary: s)
  case Nil
  then show ?case by simp
next
  case (Cons key keys)
  from Cons.prems have key: "0 \<le> key" "key < capacity s" by auto
  have a: "bitSet_add s key = Some (Inr (bitSet_add_bit s key))"
    using key by (simp add: bitSet_add_def)
  define s1 where "s1 = snd (bitSet_add_bit s key)"
  note ab = bitSet_add_bit_wf [OF Cons.prems(1) key, folded s1_def]
  have c: "collectInto key (Some s) = Some s1"
    by (simp add: collectInto_def a s1_def split: prod.splits)
  have "\<forall>k \<in> set keys. 0 \<le> k \<and> k < capacity s1"
    using Cons.prems(2) ab(4) by simp
  from Cons.IH [OF ab(1) this] obtain s' where
    s': "fold collectInto keys (Some s1) = Some s'" "bitSet_wf s'" "capacity s' = capacity s1"
      "\<forall>k. keyBit (bottom s') k \<longleftrightarrow> int k \<in> set keys \<or> keyBit (bottom s1) k"
    by auto
  have "\<forall>k. keyBit (bottom s') k \<longleftrightarrow> int k \<in> set (key # keys) \<or> keyBit (bottom s) k"
    using s'(4) ab(3) key(1) by auto
  with s' ab(4) c show ?case by simp
qed

lemma intersect_wf:
  assumes wfa: "bitSet_wf a" and wfb: "bitSet_wf b"
  shows "\<exists>r. intersect a b = Some r \<and> bitSet_wf r
     \<and> (\<forall>k. keyBit (bottom r) k \<longleftrightarrow> keyBit (bottom a) k \<and> keyBit (bottom b) k)"
proof -
  let ?keys = "map int (filter (\<lambda>k. keyBit (bottom a) k \<and> keyBit (bottom b) k)
      [0..<min (length (top' a)) (length (top' b)) * 1024])"
  from wfa have cap: "0 < capacity a" "capacity a \<le> 2 ^ 31" by (simp_all add: bitSet_wf_def)
  note new = new_BitSet_wf [OF cap]
  have capn: "capacity (new_BitSet (capacity a)) = capacity a"
    by (simp add: new_BitSet_def Let_def)
  have "\<forall>k \<in> set ?keys. 0 \<le> k \<and> k < capacity (new_BitSet (capacity a))"
    using wf_keyBit_less [OF wfa] by (auto simp: capn)
  from fold_collect [OF new(1) this] obtain r where
    r: "fold collectInto ?keys (Some (new_BitSet (capacity a))) = Some r" "bitSet_wf r"
      "\<forall>k. keyBit (bottom r) k \<longleftrightarrow> int k \<in> set ?keys \<or> keyBit (bottom (new_BitSet (capacity a))) k"
    by auto
  have "keyBit (bottom r) k \<longleftrightarrow> keyBit (bottom a) k \<and> keyBit (bottom b) k" for k
  proof -
    have "k < min (length (top' a)) (length (top' b)) * 1024"
      if "keyBit (bottom a) k" "keyBit (bottom b) k"
      using that wf_keyBit_top_bound [OF wfa, of k] wf_keyBit_top_bound [OF wfb, of k]
      by (simp add: min_def)
    then show ?thesis using r(3) new(2) by auto
  qed
  with r(1,2) show ?thesis
    by (simp add: intersect_def bitSetAnd_keys [OF wfa wfb])
qed

lemma pairwiseAnd_wf:
  assumes "sets \<noteq> []" and "\<forall>s \<in> set sets. bitSet_wf s"
  shows "\<exists>r. pairwiseAnd sets = Some r \<and> bitSet_wf r
     \<and> (\<forall>k. keyBit (bottom r) k \<longleftrightarrow> (\<forall>s \<in> set sets. keyBit (bottom s) k))"
  using assms
proof (induction sets rule: pairwiseAnd.induct)
  case 1
  then show ?case by simp
next
  case (2 s)
  then show ?case by simp
next
  case (3 a b rest)
  from 3(2-) have wfa: "bitSet_wf a" and wfb: "bitSet_wf b" by simp_all
  from intersect_wf [OF wfa wfb] obtain ab where
    ab: "intersect a b = Some ab" "bitSet_wf ab"
      "\<forall>k. keyBit (bottom ab) k \<longleftrightarrow> keyBit (bottom a) k \<and> keyBit (bottom b) k"
    by auto
  have "\<forall>s \<in> set (ab # rest). bitSet_wf s" using ab(2) 3(3) by simp
  from 3(1) [OF ab(1) _ this] obtain r where
    r: "pairwiseAnd (ab # rest) = Some r" "bitSet_wf r"
      "\<forall>k. keyBit (bottom r) k \<longleftrightarrow> (\<forall>s \<in> set (ab # rest). keyBit (bottom s) k)"
    by auto
  from r ab show ?case by auto
qed

lemma fold_and_bit:
  "bit (fold (\<lambda>x acc. acc AND f x) xs (a :: u32)) j \<longleftrightarrow> bit a j \<and> (\<forall>x \<in> set xs. bit (f x) j)"
  by (induction xs arbitrary: a) (auto simp: bit_and_iff)

lemma filter_upt_bounds:
  assumes "\<And>m. P m \<Longrightarrow> m < N" and "\<And>m. P m \<Longrightarrow> m < M"
  shows "filter P [0..<N] = filter P [0..<(M :: nat)]"
proof (rule sorted_distinct_set_unique)
  show "set (filter P [0..<N]) = set (filter P [0..<M])"
    using assms by auto
qed (simp_all add: sorted_wrt_filter)

lemma Min_top_bound:
  assumes "sets \<noteq> []" and "\<forall>s \<in> set sets. bitSet_wf s"
    and "\<forall>s \<in> set sets. keyBit (bottom s) m"
  shows "m < Min (set (map (\<lambda>x. length (top' x)) sets)) * 1024"
proof -
  let ?L = "set (map (\<lambda>x. length (top' x)) sets)"
  have "Min ?L \<in> ?L" using assms(1) by (intro Min_in) simp_all
  then obtain s where "s \<in> set sets" "Min ?L = length (top' s)" by auto
  with assms(2,3) wf_keyBit_top_bound [of s m] show ?thesis by simp
qed

lemma bitSetAndMany_keys:
  assumes ne: "sets \<noteq> []" and wf: "\<forall>s \<in> set sets. bitSet_wf s"
  shows "bitSetAndMany sets fn st = fold fn (map int (filter (\<lambda>k. \<forall>s \<in> set sets. keyBit (bottom s) k)
      [0..<Min (set (map (\<lambda>x. length (top' x)) sets)) * 1024])) st"
proof -
  consider (one) s0 where "sets = [s0]" | (two) s0 s1 where "sets = [s0, s1]"
    | (many) s0 s1 s2 rest where "sets = s0 # s1 # s2 # rest"
    using ne by (cases sets rule: pairwiseAnd.cases; simp) (metis list.exhaust)
  then show ?thesis
  proof cases
    case one
    with wf show ?thesis by (simp add: bitSetAndMany_def bitSet_forEach_keys)
  next
    case two
    with wf show ?thesis by (simp add: bitSetAndMany_def bitSetAnd_keys)
  next
    case many
    define others where "others = s1 # s2 # rest"
    have sets: "sets = s0 # others" by (simp add: many others_def)
    let ?n = "Min (set (map (\<lambda>x. length (top' x)) sets))"
    let ?T = "\<lambda>ti. fold (\<lambda>x topBits. topBits AND top' x ! ti) others (top' s0 ! ti)"
    let ?W = "\<lambda>i. fold (\<lambda>x bottomBits. bottomBits AND u32_get (bottom x) (int i)) others
        (u32_get (bottom s0) (int i))"
    let ?inner = "\<lambda>bottomIdx. forEachBit (\<lambda>bottomBit. fn (shl5_or bottomIdx bottomBit))
        (fold (\<lambda>x bottomBits. bottomBits AND u32_get (bottom x) bottomIdx) others
           (u32_get (bottom s0) bottomIdx))"
    have len: "?n \<le> length (top' s)" if "s \<in> set sets" for s
      using that by (intro Min_le) auto
    have wf0: "bitSet_wf s0" using wf sets by simp
    have "s0 \<in> set sets" by (simp add: sets)
    from len [OF this] wf_top_length [OF wf0] have n: "?n \<le> 2 ^ 21"
      by (rule order_trans)
    have "bitSetAndMany sets fn st = scan2 ?n ?T ?inner st"
      unfolding sets others_def by (simp add: bitSetAndMany_def scan2_def Let_def)
    also have "\<dots> = fold fn (map int (scanKeys ?n ?T ?W)) st"
    proof (rule scan2_fold [OF n])
      fix ti j :: nat assume ti: "ti < ?n" and "j < 32"
      from ti n have "ti < 2 ^ 21" by (rule less_le_trans)
      with \<open>j < 32\<close> have "ti * 32 + j < 2 ^ 26" by simp
      then show "?inner (int (ti * 32 + j)) = fold fn (map int (keysOfWord (ti * 32 + j) (?W (ti * 32 + j))))"
        by (intro ext bottom_scan)
    qed
    also have "scanKeys ?n ?T ?W = filter (\<lambda>k. bit (?W (k div 32)) (k mod 32)) [0..<?n * 1024]"
    proof (rule scanKeys_filter)
      fix ti j :: nat assume ti: "ti < ?n" and j: "j < 32" and nz: "?W (ti * 32 + j) \<noteq> 0"
      from nz obtain b where b: "bit (?W (ti * 32 + j)) b" by (auto simp: bit_eq_iff)
      have "bit (top' s ! ti) j" if s: "s \<in> set sets" for s
      proof -
        from b s have "bit (u32_get (bottom s) (int (ti * 32 + j))) b"
          unfolding sets by (auto simp: fold_and_bit)
        then have "u32_get (bottom s) (int (ti * 32 + j)) \<noteq> 0" by auto
        moreover have "ti < length (top' s)" using ti len [OF s] by simp
        ultimately show ?thesis using wf s j by (simp add: wf_top_bit)
      qed
      then show "bit (?T ti) j" unfolding sets by (simp add: fold_and_bit)
    qed
    also have "(\<lambda>k. bit (?W (k div 32)) (k mod 32)) = (\<lambda>k. \<forall>s \<in> set sets. keyBit (bottom s) k)"
      unfolding sets by (auto simp: fold_and_bit keyBit_def)
    finally show ?thesis .
  qed
qed

lemma bitSetAndMany_eq_forEach:
  assumes "sets \<noteq> []" and "\<forall>s \<in> set sets. bitSet_wf s" and r: "bitSet_wf r"
    and P: "\<forall>k. keyBit (bottom r) k \<longleftrightarrow> (\<forall>s \<in> set sets. keyBit (bottom s) k)"
  shows "bitSetAndMany sets fn st = bitSet_forEach r fn st"
proof -
  let ?P = "\<lambda>k. \<forall>s \<in> set sets. keyBit (bottom s) k"
  have P': "keyBit (bottom r) = ?P" using P by auto
  have eq: "filter ?P [0..<Min (set (map (\<lambda>x. length (top' x)) sets)) * 1024]
      = filter ?P [0..<length (top' r) * 1024]"
  proof (rule filter_upt_bounds)
    show "m < Min (set (map (\<lambda>x. length (top' x)) sets)) * 1024" if "?P m" for m
      using Min_top_bound [OF assms(1,2)] that by simp
    show "m < length (top' r) * 1024" if "?P m" for m
      using that wf_keyBit_top_bound [OF r, of m] by (simp add: P')
  qed
  show ?thesis
    by (simp only: bitSetAndMany_keys [OF assms(1,2)] bitSet_forEach_keys [OF r] P' eq)
qed

section \<open>Properties of the QueryEntitySet and of growth\<close>

lemma queryEntitySet_grow_wf:
  assumes wf: "queryEntitySet_wf s" and ge: "q_capacity s \<le> key" and lt: "key < 2 ^ 30"
  obtains s1 n where "queryEntitySet_grow s (key + 1) = Some (Inr s1)"
    and "queryEntitySet_wf s1" and "key < q_capacity s1"
    and "q_capacity s1 = q_capacity s * 2 ^ n"
    and "\<forall>j. key + 1 \<le> q_capacity s * 2 ^ j \<longrightarrow> n \<le> j"
    and "\<And>i. u32_get (q_bottom s1) i = u32_get (q_bottom s) i"
    and "q_dense s1 = q_dense s" and "q_sparse s1 = q_sparse s" and "q_cursor s1 = q_cursor s"
proof -
  from wf have pos: "0 < q_capacity s" by (simp add: queryEntitySet_wf_def)
  from growCapacity_pos [OF pos, of "key + 1"] obtain n
    where n: "growCapacity (q_capacity s) (key + 1) = Some (q_capacity s * 2 ^ n)"
      "key + 1 \<le> q_capacity s * 2 ^ n" "\<forall>j. key + 1 \<le> q_capacity s * 2 ^ j \<longrightarrow> n \<le> j"
    by auto
  define c' where "c' = q_capacity s * 2 ^ n"
  from growCapacity_less_double [OF pos _ n(1)] ge
  have c'b: "c' < 2 * (key + 1)" "q_capacity s \<le> c'" by (simp_all add: c'_def)
  with lt have c'31: "c' \<le> 2 ^ 31" by simp
  from pos c'b have c'pos: "0 < c'" by simp
  define nb where "nb = (c' + 31) div 32"
  have nb: "ushr (c' + 31) 5 = nb" using c'pos c'31 by (simp add: ushr5 nb_def)
  have nb0: "0 \<le> nb" using c'pos by (simp add: nb_def)
  have lb: "int (length (q_bottom s)) \<le> nb"
    using wf c'b by (simp add: queryEntitySet_wf_def nb_def zdiv_mono1)
  define s1 where "s1 = s\<lparr>q_bottom := q_bottom s @ replicate (nat nb - length (q_bottom s)) 0,
     q_capacity := c'\<rparr>"
  have g: "queryEntitySet_grow s (key + 1) = Some (Inr s1)"
    using lb nb0
    by (simp add: queryEntitySet_grow_def n(1) c'_def [symmetric] nb typed_set_zeros s1_def)
  have wf1: "queryEntitySet_wf s1"
    using c'pos c'31 lb nb0 by (simp add: queryEntitySet_wf_def s1_def nb_def)
  show thesis
    by (rule that [OF g wf1 _ _ n(3)])
       (use n(2) in \<open>simp_all add: s1_def c'_def u32_get_append_zeros\<close>)
qed

lemma qes_word_index:
  assumes wf: "queryEntitySet_wf s" and lt: "getEntityId e < q_capacity s"
  shows "ushr (getEntityId e) 5 = int (entityId e div 32)"
    and "bitOf (getEntityId e) = 2 ^ (entityId e mod 32)"
    and "entityId e div 32 < length (q_bottom s)"
proof -
  from wf lt have k32: "getEntityId e < 2 ^ 32" by (simp add: queryEntitySet_wf_def)
  then show "ushr (getEntityId e) 5 = int (entityId e div 32)"
    by (simp add: ushr5 getEntityId_def zdiv_int)
  show "bitOf (getEntityId e) = 2 ^ (entityId e mod 32)"
    by (simp add: bitOf_exp getEntityId_def nat_mod_distrib zmod_int [symmetric])
  show "entityId e div 32 < length (q_bottom s)"
    using wf lt
    by (intro div32_less_words [of _ "q_capacity s"])
       (simp_all add: queryEntitySet_wf_def getEntityId_def)
qed

lemma slotBit_iff:
  assumes wf: "queryEntitySet_wf s" and lt: "getEntityId e < q_capacity s"
  shows "slotBit s e \<longleftrightarrow> keyBit (q_bottom s) (entityId e)"
  by (simp add: slotBit_def qes_word_index [OF assms] keyBit_def and_exp_eq_0_iff_not_bit)

lemma add_entry_fresh:
  assumes wf: "queryEntitySet_wf s" and lt: "getEntityId e < q_capacity s"
    and clear: "\<not> slotBit s e"
  shows "queryEntitySet_size (queryEntitySet_add_entry s e) = queryEntitySet_size s + 1"
    and "queryEntitySet_has (queryEntitySet_add_entry s e) e"
    and "\<not> queryEntitySet_has (queryEntitySet_remove (queryEntitySet_add_entry s e) e) e"
    and "queryEntitySet_size (queryEntitySet_remove (queryEntitySet_add_entry s e) e)
          = queryEntitySet_size s"
proof -
  note ix = qes_word_index [OF wf lt]
  let ?i = "int (entityId e div 32)" and ?j = "entityId e mod 32"
  define s1 where "s1 = queryEntitySet_add_entry s e"
  from clear have c0: "u32_get (q_bottom s) ?i AND 2 ^ ?j = 0"
    by (simp add: slotBit_def ix)
  have b1: "q_bottom s1 = u32_set (q_bottom s) ?i (u32_get (q_bottom s) ?i OR 2 ^ ?j)"
    and sp1: "q_sparse s1 (getEntityId e) = Some (q_cursor s)"
    and d1: "q_dense s1 (Some (q_cursor s)) = Some e"
    and cur1: "q_cursor s1 = q_cursor s + 1"
    and cap1: "q_capacity s1 = q_capacity s"
    using c0 by (simp_all add: s1_def queryEntitySet_add_entry_def ix Let_def)
  have w1: "u32_get (q_bottom s1) ?i = u32_get (q_bottom s) ?i OR 2 ^ ?j"
    using ix(3) by (simp add: b1 u32_get_set)
  have set1: "u32_get (q_bottom s1) ?i AND 2 ^ ?j \<noteq> 0"
    by (simp add: w1 and_exp_eq_0_iff_not_bit bit_or_iff bit_exp_iff)
  show "queryEntitySet_size s1 = queryEntitySet_size s + 1"
    by (simp add: queryEntitySet_size_def cur1)
  show "queryEntitySet_has s1 e"
    using lt set1 by (simp add: queryEntitySet_has_def cap1 ix sp1 d1 Let_def)
  define s2 where "s2 = queryEntitySet_remove s1 e"
  have b2: "q_bottom s2 = u32_set (q_bottom s1) ?i (u32_get (q_bottom s1) ?i AND NOT (2 ^ ?j))"
    and cur2: "q_cursor s2 = q_cursor s" and cap2: "q_capacity s2 = q_capacity s"
    using lt set1
    by (simp_all add: s2_def queryEntitySet_remove_def cap1 ix sp1 d1 cur1 Let_def)
  have "u32_get (q_bottom s2) ?i AND 2 ^ ?j = 0"
    using ix(3) by (simp add: b2 b1 u32_get_set and_exp_eq_0_iff_not_bit bit_and_iff bit_not_iff bit_exp_iff)
  then show "\<not> queryEntitySet_has s2 e"
    by (simp add: queryEntitySet_has_def ix Let_def)
  show "queryEntitySet_size s2 = queryEntitySet_size s"
    by (simp add: queryEntitySet_size_def cur2)
qed

lemma add_fresh:
  assumes wf: "queryEntitySet_wf s" and lt: "getEntityId e < q_capacity s \<or> getEntityId e < 2 ^ 30"
    and clear: "\<not> slotBit s e"
  shows "\<exists>s1. queryEntitySet_add s e = Some (Inr s1)
      \<and> queryEntitySet_size s1 = queryEntitySet_size s + 1
      \<and> queryEntitySet_has s1 e
      \<and> \<not> queryEntitySet_has (queryEntitySet_remove s1 e) e
      \<and> queryEntitySet_size (queryEntitySet_remove s1 e) = queryEntitySet_size s"
proof (cases "getEntityId e < q_capacity s")
  case True
  then have "queryEntitySet_add s e = Some (Inr (queryEntitySet_add_entry s e))"
    by (simp add: queryEntitySet_add_def)
  with add_entry_fresh [OF wf True clear] show ?thesis by simp
next
  case False
  with lt have ge: "q_capacity s \<le> getEntityId e" and b: "getEntityId e < 2 ^ 30" by auto
  from queryEntitySet_grow_wf [OF wf ge b] obtain s0 where
    g: "queryEntitySet_grow s (getEntityId e + 1) = Some (Inr s0)" and wf0: "queryEntitySet_wf s0"
    and lt0: "getEntityId e < q_capacity s0"
    and bits: "\<And>i. u32_get (q_bottom s0) i = u32_get (q_bottom s) i"
    and cur: "q_cursor s0 = q_cursor s"
    by metis
  from clear bits have clear0: "\<not> slotBit s0 e" by (simp add: slotBit_def)
  have "queryEntitySet_add s e = Some (Inr (queryEntitySet_add_entry s0 e))"
    using False by (simp add: queryEntitySet_add_def g)
  with add_entry_fresh [OF wf0 lt0 clear0] cur show ?thesis
    by (simp add: queryEntitySet_size_def)
qed

lemma add_stale:
  assumes lt: "getEntityId e < q_capacity s" and occupied: "slotBit s e"
    and stale: "q_dense s (q_sparse s (getEntityId e)) = Some e'" "e' \<noteq> e"
  shows "queryEntitySet_add s e
      = Some (Inr (s\<lparr>q_dense := (q_dense s)(q_sparse s (getEntityId e) \<mapsto> e)\<rparr>))"
  using assms by (simp add: queryEntitySet_add_def queryEntitySet_add_entry_def slotBit_def Let_def)

lemma qes_with_entity0:
  "queryEntitySet_size qes_with_entity0 = 1"
  "queryEntitySet_has qes_with_entity0 entity0"
  "queryEntitySet_add qes_with_entity0 entity0 = Some (Inr qes_with_entity0)"
  "queryEntitySet_size (queryEntitySet_remove qes_with_entity0 entity0) = 0"
  "queryEntitySet_add qes_with_entity0 entity0_gen1
     = Some (Inr (qes_with_entity0\<lparr>q_dense := (q_dense qes_with_entity0)(Some 0 \<mapsto> entity0_gen1)\<rparr>))"
proof -
  have wf: "queryEntitySet_wf (new_QueryEntitySet 1024)"
    by (simp add: queryEntitySet_wf_def new_QueryEntitySet_def new_Uint32Array_def ushr_def)
  have lt: "getEntityId entity0 < q_capacity (new_QueryEntitySet 1024)"
    by (simp add: getEntityId_def entity0_def new_QueryEntitySet_def)
  have clear: "\<not> slotBit (new_QueryEntitySet 1024) entity0"
    by (simp add: slotBit_def new_QueryEntitySet_def new_Uint32Array_def u32_get_def array_get_def)
  note f = add_entry_fresh [OF wf lt clear, folded qes_with_entity0_def]
  show "queryEntitySet_size qes_with_entity0 = 1"
    using f(1) by (simp add: queryEntitySet_size_def new_QueryEntitySet_def)
  show h: "queryEntitySet_has qes_with_entity0 entity0" by (rule f(2))
  show "queryEntitySet_size (queryEntitySet_remove qes_with_entity0 entity0) = 0"
    using f(4) by (simp add: queryEntitySet_size_def new_QueryEntitySet_def)
  have cap: "q_capacity qes_with_entity0 = 1024"
    by (simp add: qes_with_entity0_def queryEntitySet_add_entry_def new_QueryEntitySet_def Let_def)
  from h have occ: "slotBit qes_with_entity0 entity0"
    and d: "q_dense qes_with_entity0 (q_sparse qes_with_entity0 (getEntityId entity0)) = Some entity0"
    by (auto simp: queryEntitySet_has_def slotBit_def Let_def split: if_splits)
  show "queryEntitySet_add qes_with_entity0 entity0 = Some (Inr qes_with_entity0)"
    using occ d cap
    by (simp add: queryEntitySet_add_def queryEntitySet_add_entry_def slotBit_def Let_def
        getEntityId_def entity0_def)
  have id1: "getEntityId entity0_gen1 = getEntityId entity0"
    by (simp add: getEntityId_def entity0_def entity0_gen1_def)
  have sp: "q_sparse qes_with_entity0 (getEntityId entity0) = Some 0"
    using clear
    by (simp add: qes_with_entity0_def queryEntitySet_add_entry_def slotBit_def Let_def
        new_QueryEntitySet_def)
  have "queryEntitySet_add qes_with_entity0 entity0_gen1
      = Some (Inr (qes_with_entity0\<lparr>q_dense := (q_dense qes_with_entity0)
           (q_sparse qes_with_entity0 (getEntityId entity0_gen1) \<mapsto> entity0_gen1)\<rparr>))"
  proof (rule add_stale)
    show "getEntityId entity0_gen1 < q_capacity qes_with_entity0"
      by (simp add: cap getEntityId_def entity0_gen1_def)
    show "slotBit qes_with_entity0 entity0_gen1"
      using occ by (simp add: slotBit_def id1)
    show "q_dense qes_with_entity0 (q_sparse qes_with_entity0 (getEntityId entity0_gen1)) = Some entity0"
      using d by (simp add: id1)
    show "entity0 \<noteq> entity0_gen1" by (simp add: entity0_def entity0_gen1_def)
  qed
  then show "queryEntitySet_add qes_with_entity0 entity0_gen1
     = Some (Inr (qes_with_entity0\<lparr>q_dense := (q_dense qes_with_entity0)(Some 0 \<mapsto> entity0_gen1)\<rparr>))"
    by (simp add: id1 sp)
qed










section \<open>Properties of checkQuery\<close>

lemma js_and_zero_right: "js_and m 0 = 0"
  by (simp add: js_and_def)

lemmas checkQuery_eval =
  checkQuery_def array_get_opt_def array_get_def entityMaskOf_def getEntityId_def truthy_def
  js_and_def triplePasses_def tripleEmpty_def entity0_def world_of_masks_def

lemma bank_checks_iff:
  "(if \<not> truthy (forbidden bm) \<and> \<not> truthy (required bm) \<and> \<not> truthy (orMask bm) then False
    else if truthy (forbidden bm) \<and> js_and m (forbidden bm) \<noteq> 0 then False
    else if truthy (required bm) \<and> js_and m (required bm) \<noteq> required bm then False
    else if orMask bm \<noteq> 0 \<and> js_and m (orMask bm) = 0 then False
    else X) \<longleftrightarrow> \<not> tripleEmpty bm \<and> triplePasses bm m \<and> X"
  unfolding triplePasses_def tripleEmpty_def truthy_def
  by (cases "forbidden bm = 0"; cases "required bm = 0"; cases "orMask bm = 0")
     (simp_all add: js_and_zero_right)

lemma single_checks_iff:
  "(if truthy (forbidden bm) \<and> js_and m (forbidden bm) \<noteq> 0 then Inr False
    else if truthy (required bm) \<and> js_and m (required bm) \<noteq> required bm then Inr False
    else if orMask bm \<noteq> 0 \<and> js_and m (orMask bm) = 0 then Inr False
    else Inr True) = (Inr (triplePasses bm m) :: error + bool)"
  unfolding triplePasses_def truthy_def
  by (cases "forbidden bm = 0"; cases "required bm = 0"; cases "orMask bm = 0")
     (simp_all add: js_and_zero_right)

lemma checkBanks_iff:
  "checkBanks em q eid is \<longleftrightarrow>
     (\<forall>i \<in> set is. case array_get_opt (staticBitmasks q) (int i) of
        None \<Rightarrow> True
      | Some bm \<Rightarrow> \<not> tripleEmpty bm \<and> triplePasses bm (entityMaskOf em (generations q ! i) eid))"
proof (induction "is")
  case Nil
  show ?case by simp
next
  case (Cons i rest)
  show ?case
  proof (cases "array_get_opt (staticBitmasks q) (int i)")
    case None
    with Cons show ?thesis by simp
  next
    case (Some bm)
    with Cons show ?thesis by (simp add: Let_def bank_checks_iff)
  qed
qed

text \<open>
  C2. For a query that touches a single bank, \<open>checkQuery\<close> returns true exactly when the
  entity's mask word for that bank has no forbidden bit, has every required bit, and meets
  the \<open>or\<close> mask when that is non-empty. The mask word of an absent bank row, or of a row
  that does not reach the entity's slot, is zero and no error is raised. A query with no
  traits matches no entity. With required bits 0 and 1 and forbidden bit 2, the mask
  \<open>0b011\<close> matches and the mask \<open>0b111\<close> does not.
\<close>

theorem checkQuery_single_bank:
  assumes "length (generations q) = 1"
    and "array_get_opt (staticBitmasks q) 0 = Some bm"
    and "traitInstancesAll q \<noteq> []"
    and "traitInstancesAll q0 = []"
    and "array_get em_absent g = None"
    and "array_get em_short g' = Some row" and "int (length row) \<le> getEntityId e"
  shows "checkQuery w q e = Inr (triplePasses bm (entityMaskOf (entityMasks w) (generations q ! 0) (getEntityId e)))
    \<and> checkQuery w q0 e = Inr False
    \<and> entityMaskOf em_absent g (getEntityId e) = 0
    \<and> entityMaskOf em_short g' (getEntityId e) = 0
    \<and> checkQuery (world_of_masks [[3]]) query_single entity0 = Inr True
    \<and> checkQuery (world_of_masks [[7]]) query_single entity0 = Inr False"
proof -
  have "checkQuery w q e = Inr (triplePasses bm (entityMaskOf (entityMasks w) (generations q ! 0) (getEntityId e)))"
    using assms(1-3)
    by (simp add: checkQuery_def Let_def single_checks_iff)
  moreover have "checkQuery w q0 e = Inr False"
    using assms(4) by (simp add: checkQuery_def)
  moreover have "entityMaskOf em_absent g (getEntityId e) = 0"
    using assms(5) by (simp add: entityMaskOf_def)
  moreover have "entityMaskOf em_short g' (getEntityId e) = 0"
    using assms(6,7) by (auto simp: entityMaskOf_def array_get_def split: if_splits)
  moreover have "checkQuery (world_of_masks [[3]]) query_single entity0 = Inr True"
    by (simp add: checkQuery_eval query_single_def)
  moreover have "checkQuery (world_of_masks [[7]]) query_single entity0 = Inr False"
    by (simp add: checkQuery_eval query_single_def)
  ultimately show ?thesis by simp
qed

theorem checkQuery_single_bank_witness:
  "length (generations query_single) = 1
   \<and> array_get_opt (staticBitmasks query_single) 0 = Some \<lparr>required = 3, forbidden = 4, orMask = 0\<rparr>
   \<and> traitInstancesAll query_single \<noteq> []
   \<and> traitInstancesAll query_no_traits = []
   \<and> array_get ([] :: u32 list list) 0 = None
   \<and> array_get [[]] 0 = Some ([] :: u32 list)
   \<and> int (length ([] :: u32 list)) \<le> getEntityId entity0
   \<and> checkQuery (world_of_masks [[3]]) query_single entity0 = Inr True
   \<and> checkQuery (world_of_masks [[7]]) query_single entity0 = Inr False
   \<and> checkQuery (world_of_masks [[3]]) query_no_traits entity0 = Inr False
   \<and> entityMaskOf [] 0 (getEntityId entity0) = 0
   \<and> entityMaskOf [[]] 0 (getEntityId entity0) = 0"
  using checkQuery_single_bank [where q = query_single
      and bm = "\<lparr>required = 3, forbidden = 4, orMask = 0\<rparr>" and ?q0.0 = query_no_traits
      and em_absent = "[]" and g = 0 and em_short = "[[]]" and g' = 0 and row = "[]"
      and e = entity0 and w = "world_of_masks [[3]]"]
  by (simp add: checkQuery_eval query_single_def query_no_traits_def)

text \<open>
  C1, as stated, fails: in a query over two banks, a bank whose triple is present and entirely
  empty rejects the entity, although the entity passes the only non-empty triple.
\<close>

theorem checkQuery_empty_triple_rejects:
  "array_get_opt (staticBitmasks query_empty_bank) 0 = Some \<lparr>required = 3, forbidden = 0, orMask = 0\<rparr>
   \<and> triplePasses \<lparr>required = 3, forbidden = 0, orMask = 0\<rparr>
        (entityMaskOf [[3], [0]] (generations query_empty_bank ! 0) (getEntityId entity0))
   \<and> array_get_opt (staticBitmasks query_empty_bank) 1 = Some \<lparr>required = 0, forbidden = 0, orMask = 0\<rparr>
   \<and> tripleEmpty \<lparr>required = 0, forbidden = 0, orMask = 0\<rparr>
   \<and> checkQuery (world_of_masks [[3], [0]]) query_empty_bank entity0 = Inr False"
  by (simp add: checkQuery_eval query_empty_bank_def)

text \<open>
  C1, amended. For a query whose number of touched banks is not one and that has at least one
  trait, \<open>checkQuery\<close> returns true exactly when every touched bank whose bitmask entry is
  present has a triple that is not entirely empty and that passes against the entity's mask
  word. A bank whose bitmask entry is absent is skipped; a present triple with all three
  masks zero rejects the entity.
\<close>

theorem checkQuery_multi_bank:
  assumes "length (generations q) \<noteq> 1" and "traitInstancesAll q \<noteq> []"
  shows "checkQuery w q e =
    Inr (\<forall>i < length (generations q).
      case array_get_opt (staticBitmasks q) (int i) of
        None \<Rightarrow> True
      | Some bm \<Rightarrow> \<not> tripleEmpty bm
          \<and> triplePasses bm (entityMaskOf (entityMasks w) (generations q ! i) (getEntityId e)))"
  using assms by (auto simp: checkQuery_def checkBanks_iff)

theorem checkQuery_multi_bank_witness:
  "length (generations query_absent_bank) \<noteq> 1 \<and> traitInstancesAll query_absent_bank \<noteq> []
   \<and> array_get_opt (staticBitmasks query_absent_bank) 1 = None
   \<and> checkQuery (world_of_masks [[3], [0]]) query_absent_bank entity0 = Inr True"
proof -
  have h1: "length (generations query_absent_bank) \<noteq> 1"
    and h2: "traitInstancesAll query_absent_bank \<noteq> []"
    by (simp_all add: query_absent_bank_def)
  have "checkQuery (world_of_masks [[3], [0]]) query_absent_bank entity0 = Inr True"
    unfolding checkQuery_multi_bank [OF h1 h2]
    by (simp add: query_absent_bank_def All_less_Suc array_get_opt_def array_get_def
        entityMaskOf_def getEntityId_def entity0_def triplePasses_def tripleEmpty_def js_and_def
        world_of_masks_def)
  with h1 h2 show ?thesis by (simp add: query_absent_bank_def array_get_opt_def array_get_def)
qed

section \<open>Sequences of calls on a BitSet\<close>











section \<open>The QueryEntitySet, growth and the set operations\<close>

text \<open>
  C3, as stated, fails: when the handle is already in the set, \<open>add\<close> changes nothing and
  the following \<open>remove\<close> takes the handle out, so that the size ends one below its value
  before the \<open>add\<close>.
\<close>

theorem queryEntitySet_add_present_remove:
  "queryEntitySet_size qes_with_entity0 = 1
   \<and> queryEntitySet_add qes_with_entity0 entity0 = Some (Inr qes_with_entity0)
   \<and> queryEntitySet_size (queryEntitySet_remove qes_with_entity0 entity0) = 0"
  by (simp add: qes_with_entity0)

text \<open>
  C3, amended. For every QueryEntitySet state of positive capacity whose bit array has the
  length allocated for the capacity, and every handle \<open>e\<close> whose slot index is below the
  capacity or below \<open>2^30\<close> and whose membership bit is clear: \<open>add(e)\<close> returns, raises the
  size by one and makes \<open>has(e)\<close> true, and the following \<open>remove(e)\<close> leaves \<open>has(e)\<close> false
  and the size at its value before the \<open>add\<close>. When the membership bit of the slot of \<open>e2\<close>
  is set and the dense slot holds a different handle, \<open>add(e2)\<close> overwrites the stored
  handle in place and changes neither the size nor the bits.
\<close>

theorem queryEntitySet_add_remove:
  assumes "queryEntitySet_wf s"
    and "getEntityId e < q_capacity s \<or> getEntityId e < 2 ^ 30"
    and "\<not> slotBit s e"
    and "getEntityId e2 < q_capacity s2" and "slotBit s2 e2"
    and "q_dense s2 (q_sparse s2 (getEntityId e2)) = Some e'" and "e' \<noteq> e2"
  shows "(\<exists>s1. queryEntitySet_add s e = Some (Inr s1)
        \<and> queryEntitySet_size s1 = queryEntitySet_size s + 1
        \<and> queryEntitySet_has s1 e
        \<and> \<not> queryEntitySet_has (queryEntitySet_remove s1 e) e
        \<and> queryEntitySet_size (queryEntitySet_remove s1 e) = queryEntitySet_size s)
    \<and> (\<exists>s3. queryEntitySet_add s2 e2 = Some (Inr s3)
        \<and> q_dense s3 = (q_dense s2)(q_sparse s2 (getEntityId e2) \<mapsto> e2)
        \<and> queryEntitySet_size s3 = queryEntitySet_size s2
        \<and> q_bottom s3 = q_bottom s2 \<and> q_sparse s3 = q_sparse s2
        \<and> q_capacity s3 = q_capacity s2)"
proof -
  have "queryEntitySet_add s2 e2
      = Some (Inr (s2\<lparr>q_dense := (q_dense s2)(q_sparse s2 (getEntityId e2) \<mapsto> e2)\<rparr>))"
    using assms(4-7) by (rule add_stale)
  then have "\<exists>s3. queryEntitySet_add s2 e2 = Some (Inr s3)
        \<and> q_dense s3 = (q_dense s2)(q_sparse s2 (getEntityId e2) \<mapsto> e2)
        \<and> queryEntitySet_size s3 = queryEntitySet_size s2
        \<and> q_bottom s3 = q_bottom s2 \<and> q_sparse s3 = q_sparse s2
        \<and> q_capacity s3 = q_capacity s2"
    by (simp add: queryEntitySet_size_def)
  with add_fresh [OF assms(1-3)] show ?thesis by simp
qed

theorem queryEntitySet_add_remove_witness:
  "queryEntitySet_wf (new_QueryEntitySet 1024)
   \<and> getEntityId entity0 < q_capacity (new_QueryEntitySet 1024)
   \<and> \<not> slotBit (new_QueryEntitySet 1024) entity0
   \<and> getEntityId entity0_gen1 < q_capacity qes_with_entity0
   \<and> slotBit qes_with_entity0 entity0_gen1
   \<and> q_dense qes_with_entity0 (q_sparse qes_with_entity0 (getEntityId entity0_gen1)) = Some entity0
   \<and> entity0 \<noteq> entity0_gen1
   \<and> (\<exists>s1. queryEntitySet_add (new_QueryEntitySet 1024) entity0 = Some (Inr s1)
        \<and> queryEntitySet_size s1 = 1
        \<and> queryEntitySet_has s1 entity0
        \<and> \<not> queryEntitySet_has (queryEntitySet_remove s1 entity0) entity0
        \<and> queryEntitySet_size (queryEntitySet_remove s1 entity0) = 0)
   \<and> (\<exists>s3. queryEntitySet_add qes_with_entity0 entity0_gen1 = Some (Inr s3)
        \<and> q_dense s3 (Some 0) = Some entity0_gen1
        \<and> queryEntitySet_size s3 = 1)"
proof -
  have wf: "queryEntitySet_wf (new_QueryEntitySet 1024)"
    by (simp add: queryEntitySet_wf_def new_QueryEntitySet_def new_Uint32Array_def ushr_def)
  have lt: "getEntityId entity0 < q_capacity (new_QueryEntitySet 1024)"
    by (simp add: getEntityId_def entity0_def new_QueryEntitySet_def)
  have clear: "\<not> slotBit (new_QueryEntitySet 1024) entity0"
    by (simp add: slotBit_def new_QueryEntitySet_def new_Uint32Array_def u32_get_def array_get_def)
  have id1: "getEntityId entity0_gen1 = getEntityId entity0"
    by (simp add: getEntityId_def entity0_def entity0_gen1_def)
  have cap: "q_capacity qes_with_entity0 = 1024"
    by (simp add: qes_with_entity0_def queryEntitySet_add_entry_def new_QueryEntitySet_def Let_def)
  have lt2: "getEntityId entity0_gen1 < q_capacity qes_with_entity0"
    by (simp add: cap getEntityId_def entity0_gen1_def)
  from qes_with_entity0(2) have occ: "slotBit qes_with_entity0 entity0_gen1"
    and d: "q_dense qes_with_entity0 (q_sparse qes_with_entity0 (getEntityId entity0_gen1)) = Some entity0"
    by (auto simp: queryEntitySet_has_def slotBit_def Let_def id1 split: if_splits)
  have ne: "entity0 \<noteq> entity0_gen1" by (simp add: entity0_def entity0_gen1_def)
  have sp: "q_sparse qes_with_entity0 (getEntityId entity0_gen1) = Some 0"
    using clear
    by (simp add: id1 qes_with_entity0_def queryEntitySet_add_entry_def slotBit_def Let_def
        new_QueryEntitySet_def)
  have sz0: "queryEntitySet_size (new_QueryEntitySet 1024) = 0"
    by (simp add: queryEntitySet_size_def new_QueryEntitySet_def)
  from queryEntitySet_add_remove [OF wf disjI1 [OF lt] clear lt2 occ d ne]
  have "(\<exists>s1. queryEntitySet_add (new_QueryEntitySet 1024) entity0 = Some (Inr s1)
        \<and> queryEntitySet_size s1 = 1
        \<and> queryEntitySet_has s1 entity0
        \<and> \<not> queryEntitySet_has (queryEntitySet_remove s1 entity0) entity0
        \<and> queryEntitySet_size (queryEntitySet_remove s1 entity0) = 0)
   \<and> (\<exists>s3. queryEntitySet_add qes_with_entity0 entity0_gen1 = Some (Inr s3)
        \<and> q_dense s3 (Some 0) = Some entity0_gen1
        \<and> queryEntitySet_size s3 = 1)"
    by (auto simp: sz0 sp qes_with_entity0(1))
  with wf lt clear lt2 occ d ne show ?thesis by simp
qed






lemma bitSetAndMany_pairwise:
  assumes "sets \<noteq> []" and "\<forall>s \<in> set sets. bitSet_wf s"
  shows "\<exists>r. pairwiseAnd sets = Some r
     \<and> bitSetAndMany sets fn st = bitSet_forEach r fn st
     \<and> bitSetAndMany sets (\<lambda>k r. r @ [k]) [] = bitSet_toArray r
     \<and> sorted_wrt (<) (bitSet_toArray r)
     \<and> set (bitSet_toArray r) = {k. 0 \<le> k \<and> (\<forall>s \<in> set sets. bitSet_has s k)}"
proof -
  from pairwiseAnd_wf [OF assms] obtain r where
    r: "pairwiseAnd sets = Some r" "bitSet_wf r"
      "\<forall>k. keyBit (bottom r) k \<longleftrightarrow> (\<forall>s \<in> set sets. keyBit (bottom s) k)"
    by auto
  let ?P = "\<lambda>k. \<forall>s \<in> set sets. keyBit (bottom s) k"
  have P: "keyBit (bottom r) = ?P" using r(3) by auto
  note many = bitSetAndMany_eq_forEach [OF assms r(2,3)]
  have arr: "bitSet_toArray r = map int (filter ?P [0..<length (top' r) * 1024])"
    by (simp add: bitSet_toArray_def bitSet_forEach_keys [OF r(2)] P fold_snoc_trace)
  have bound: "m < length (top' r) * 1024" if "?P m" for m
    using that wf_keyBit_top_bound [OF r(2), of m] by (simp add: P)
  have "{k. 0 \<le> k \<and> ?P (nat k)} = {k. 0 \<le> k \<and> (\<forall>s \<in> set sets. bitSet_has s k)}"
    using assms(2) by (auto simp: bitSet_has_keyBit)
  with key_list [of ?P "length (top' r) * 1024", OF bound]
  have "sorted_wrt (<) (bitSet_toArray r)"
    and "set (bitSet_toArray r) = {k. 0 \<le> k \<and> (\<forall>s \<in> set sets. bitSet_has s k)}"
    by (simp_all add: arr)
  moreover have "bitSetAndMany sets (\<lambda>k r. r @ [k]) [] = bitSet_toArray r"
    unfolding bitSet_toArray_def by (rule many)
  moreover have "bitSetAndMany sets fn st = bitSet_forEach r fn st"
    by (rule many)
  ultimately show ?thesis using r(1) by (intro exI [of _ r]) simp
qed

text \<open>
  C9. For a non-empty list of BitSets in states that the constructor and the operations
  produce, the pairwise reduction returns a set, and \<open>bitSetAndMany\<close> calls every visitor
  as \<open>forEach\<close> on that set does: on the keys that all the sets have, in strictly ascending
  order. The three-way intersection of the sets with the keys 1, 5, 1025, the keys 5, 1025,
  2000 and the keys 5, 1025 visits 5 and then 1025.
\<close>

theorem bitSetAndMany_is_pairwise_and:
  assumes "sets \<noteq> []" and "\<forall>s \<in> set sets. bitSet_wf s"
  shows "(\<exists>r. pairwiseAnd sets = Some r
       \<and> bitSetAndMany sets fn st = bitSet_forEach r fn st
       \<and> bitSetAndMany sets (\<lambda>k r. r @ [k]) [] = bitSet_toArray r
       \<and> sorted_wrt (<) (bitSet_toArray r)
       \<and> set (bitSet_toArray r) = {k. 0 \<le> k \<and> (\<forall>s \<in> set sets. bitSet_has s k)})
     \<and> bitSetAndMany [bitSet_of_keys [1, 5, 1025], bitSet_of_keys [5, 1025, 2000],
          bitSet_of_keys [5, 1025]] (\<lambda>k r. r @ [k]) [] = [5, 1025]"
proof -
  let ?sets = "[bitSet_of_keys [1, 5, 1025], bitSet_of_keys [5, 1025, 2000], bitSet_of_keys [5, 1025]]"
  have wf: "\<forall>s \<in> set ?sets. bitSet_wf s" by (simp add: bitSet_of_keys_wf)
  have h: "bitSet_has (bitSet_of_keys [1, 5, 1025]) k \<longleftrightarrow> k \<in> {1, 5, 1025}"
    "bitSet_has (bitSet_of_keys [5, 1025, 2000]) k \<longleftrightarrow> k \<in> {5, 1025, 2000}"
    "bitSet_has (bitSet_of_keys [5, 1025]) k \<longleftrightarrow> k \<in> {5, 1025}" if "0 \<le> k" for k
    using that by (simp_all add: bitSet_of_keys_wf)
  have s: "{k. 0 \<le> k \<and> (\<forall>s \<in> set ?sets. bitSet_has s k)} = set [5, 1025]"
    using h by auto
  have ne3: "?sets \<noteq> []" by simp
  from bitSetAndMany_pairwise [of ?sets "\<lambda>k r. r @ [k]" "[]", OF ne3 wf, unfolded s] obtain r where
    "bitSetAndMany ?sets (\<lambda>k r. r @ [k]) [] = bitSet_toArray r"
    "sorted_wrt (<) (bitSet_toArray r)" "set (bitSet_toArray r) = set [5, 1025]"
    by (elim exE conjE)
  then have "bitSetAndMany ?sets (\<lambda>k r. r @ [k]) [] = [5, 1025]"
    by (intro strictly_sorted_unique) simp_all
  with bitSetAndMany_pairwise [OF assms, of fn st] show ?thesis by simp
qed

theorem bitSetAndMany_is_pairwise_and_witness:
  "[bitSet_of_keys [1, 5, 1025], bitSet_of_keys [5, 7], bitSet_of_keys [5, 1025]] \<noteq> []
   \<and> bitSet_wf (bitSet_of_keys [1, 5, 1025]) \<and> bitSet_wf (bitSet_of_keys [5, 7])
   \<and> bitSet_wf (bitSet_of_keys [5, 1025])
   \<and> (\<exists>r. pairwiseAnd [bitSet_of_keys [1, 5, 1025], bitSet_of_keys [5, 7], bitSet_of_keys [5, 1025]]
          = Some r
       \<and> bitSetAndMany [bitSet_of_keys [1, 5, 1025], bitSet_of_keys [5, 7], bitSet_of_keys [5, 1025]]
            (\<lambda>k r. r @ [k]) [] = bitSet_toArray r
       \<and> bitSet_toArray r = [5])"
proof -
  let ?sets = "[bitSet_of_keys [1, 5, 1025], bitSet_of_keys [5, 7], bitSet_of_keys [5, 1025]]"
  have ne: "?sets \<noteq> []" by simp
  have wf: "\<forall>s \<in> set ?sets. bitSet_wf s" by (simp add: bitSet_of_keys_wf)
  have h: "bitSet_has (bitSet_of_keys [1, 5, 1025]) k \<longleftrightarrow> k \<in> {1, 5, 1025}"
    "bitSet_has (bitSet_of_keys [5, 7]) k \<longleftrightarrow> k \<in> {5, 7}"
    "bitSet_has (bitSet_of_keys [5, 1025]) k \<longleftrightarrow> k \<in> {5, 1025}" if "0 \<le> k" for k
    using that by (simp_all add: bitSet_of_keys_wf)
  have s: "{k. 0 \<le> k \<and> (\<forall>s \<in> set ?sets. bitSet_has s k)} = set [5]"
    using h by auto
  from bitSetAndMany_is_pairwise_and [of ?sets "\<lambda>k r. r @ [k]" "[]", OF ne wf, unfolded s]
  obtain r where
    r: "pairwiseAnd ?sets = Some r"
    "bitSetAndMany ?sets (\<lambda>k r. r @ [k]) [] = bitSet_toArray r"
    "sorted_wrt (<) (bitSet_toArray r)" "set (bitSet_toArray r) = set [5]"
    by (elim exE conjE)
  from r(3,4) have "bitSet_toArray r = [5]"
    by (intro strictly_sorted_unique) simp_all
  with r(1,2) wf show ?thesis by simp
qed

text \<open>
  C10. For a key at or beyond the capacity, \<open>has\<close> and \<open>remove\<close> of the BitSet return false
  and leave the set as it is; for a handle whose slot index is at or beyond the capacity,
  \<open>has\<close> of the QueryEntitySet returns false and \<open>remove\<close> leaves the set as it is. Neither
  operation has a path into \<open>grow\<close>.
\<close>

theorem beyond_capacity_no_effect:
  assumes "capacity s \<le> key" and "q_capacity q \<le> getEntityId e"
  shows "bitSet_has s key = False \<and> bitSet_remove s key = (False, s)
    \<and> queryEntitySet_has q e = False \<and> queryEntitySet_remove q e = q"
  using assms
  by (simp add: bitSet_has_def bitSet_remove_def queryEntitySet_has_def queryEntitySet_remove_def)

theorem beyond_capacity_no_effect_witness:
  "capacity (new_BitSet 1024) \<le> 1024
   \<and> q_capacity (new_QueryEntitySet 1024) \<le> getEntityId entity_5000
   \<and> bitSet_has (new_BitSet 1024) 1024 = False
   \<and> bitSet_remove (new_BitSet 1024) 1024 = (False, new_BitSet 1024)
   \<and> queryEntitySet_has (new_QueryEntitySet 1024) entity_5000 = False
   \<and> queryEntitySet_remove (new_QueryEntitySet 1024) entity_5000 = new_QueryEntitySet 1024"
proof -
  have h1: "capacity (new_BitSet 1024) \<le> 1024"
    by (simp add: new_BitSet_def Let_def)
  have h2: "q_capacity (new_QueryEntitySet 1024) \<le> getEntityId entity_5000"
    by (simp add: new_QueryEntitySet_def getEntityId_def entity_5000_def)
  from beyond_capacity_no_effect [OF h1 h2] h1 h2 show ?thesis by simp
qed

section \<open>Properties of destroyEntity\<close>

lemma fewerPairs_refl: "fewerPairs w w"
  by (simp add: fewerPairs_def)

lemma fewerPairs_trans:
  assumes "fewerPairs a b" and "fewerPairs b c"
  shows "fewerPairs a c"
  unfolding fewerPairs_def
proof (intro conjI allI impI)
  show "entityIndex c = entityIndex a" using assms by (simp add: fewerPairs_def)
  show len: "length (relations c) = length (relations a)" using assms by (simp add: fewerPairs_def)
  fix ri assume ri: "ri < length (relations a)"
  then have ri': "ri < length (relations b)" using assms(1) by (simp add: fewerPairs_def)
  from assms(1) ri have 1: "autoDestroy (relations b ! ri) = autoDestroy (relations a ! ri)"
    "set (pairs (relations b ! ri)) \<subseteq> set (pairs (relations a ! ri))"
    by (simp_all add: fewerPairs_def)
  from assms(2) ri' have 2: "autoDestroy (relations c ! ri) = autoDestroy (relations b ! ri)"
    "set (pairs (relations c ! ri)) \<subseteq> set (pairs (relations b ! ri))"
    by (simp_all add: fewerPairs_def)
  from 1 2 show "autoDestroy (relations c ! ri) = autoDestroy (relations a ! ri)" by simp
  from 1 2 show "set (pairs (relations c ! ri)) \<subseteq> set (pairs (relations a ! ri))" by blast
qed

lemma cleanup_fewer: "fewerPairs w (cleanupRelationTarget w ri s t)"
  unfolding fewerPairs_def
proof (intro conjI allI impI)
  show "entityIndex (cleanupRelationTarget w ri s t) = entityIndex w"
    by (simp add: cleanupRelationTarget_def)
  show "length (relations (cleanupRelationTarget w ri s t)) = length (relations w)"
    by (simp add: cleanupRelationTarget_def)
  fix i assume "i < length (relations w)"
  then show "autoDestroy (relations (cleanupRelationTarget w ri s t) ! i) = autoDestroy (relations w ! i)"
    by (cases "i = ri") (simp_all add: cleanupRelationTarget_def)
  from \<open>i < length (relations w)\<close>
  show "set (pairs (relations (cleanupRelationTarget w ri s t) ! i)) \<subseteq> set (pairs (relations w ! i))"
    by (cases "i = ri") (auto simp: cleanupRelationTarget_def)
qed

lemma fewerPairs_cascade:
  assumes "fewerPairs w w'"
  shows "cascade w' \<subseteq> cascade w"
proof
  fix e assume "e \<in> cascade w'"
  then obtain x y ri where e: "e = (x, y)" and ri: "ri < length (relations w')"
    and c: "(autoDestroy (relations w' ! ri) = Source \<and> (y, x) \<in> set (pairs (relations w' ! ri)))
     \<or> (autoDestroy (relations w' ! ri) = Target \<and> (x, y) \<in> set (pairs (relations w' ! ri)))"
    by (auto simp: cascade_def)
  from assms ri have ri': "ri < length (relations w)" by (simp add: fewerPairs_def)
  with assms have a: "autoDestroy (relations w' ! ri) = autoDestroy (relations w ! ri)"
    and p: "set (pairs (relations w' ! ri)) \<subseteq> set (pairs (relations w ! ri))"
    by (simp_all add: fewerPairs_def)
  from c a p have "(autoDestroy (relations w ! ri) = Source \<and> (y, x) \<in> set (pairs (relations w ! ri)))
     \<or> (autoDestroy (relations w ! ri) = Target \<and> (x, y) \<in> set (pairs (relations w ! ri)))"
    by auto
  with ri' e show "e \<in> cascade w" unfolding cascade_def by blast
qed


lemma sourceStep_alt:
  "sourceStep c ri x st =
     (if \<not> world_has (fst st) x then st
      else (cleanupRelationTarget (fst st) ri x c,
            if autoDestroy (relations (fst st) ! ri) = Source then x # snd st else snd st))"
  by (cases st) (simp add: sourceStep_def)

lemma processTargets_alt:
  "processTargets c p ri st =
     (if autoDestroy (relations (fst st) ! ri) = Target
      then (fst st, fold (targetStep (fst st) p) (getRelationTargets (fst st) ri c) (snd st))
      else st)"
  by (cases st) (simp add: processTargets_def)

text \<open>Steps of the loop over the relations, for a set of handles closed under cascade.\<close>

lemma sourceStep_closed:
  assumes fp: "fewerPairs w (fst st)" and q: "set (snd st) \<subseteq> C"
    and cl: "\<forall>x y. x \<in> C \<longrightarrow> (x, y) \<in> cascade w \<longrightarrow> y \<in> C" and c: "c \<in> C"
    and ri: "ri < length (relations w)" and x: "(x, c) \<in> set (pairs (relations w ! ri))"
  shows "fewerPairs w (fst (sourceStep c ri x st)) \<and> set (snd (sourceStep c ri x st)) \<subseteq> C"
proof (cases "world_has (fst st) x")
  case False
  with fp q show ?thesis by (simp add: sourceStep_alt)
next
  case True
  have w1: "fst (sourceStep c ri x st) = cleanupRelationTarget (fst st) ri x c"
    using True by (simp add: sourceStep_alt)
  have "fewerPairs w (cleanupRelationTarget (fst st) ri x c)"
    by (rule fewerPairs_trans [OF fp cleanup_fewer])
  moreover have "set (snd (sourceStep c ri x st)) \<subseteq> C"
  proof (cases "autoDestroy (relations (fst st) ! ri) = Source")
    case False
    with True q show ?thesis by (simp add: sourceStep_alt)
  next
    case src: True
    with fp ri have "autoDestroy (relations w ! ri) = Source" by (simp add: fewerPairs_def)
    with ri x have "(c, x) \<in> cascade w" unfolding cascade_def by blast
    with cl c have "x \<in> C" by blast
    with True src q show ?thesis by (simp add: sourceStep_alt)
  qed
  ultimately show ?thesis by (simp add: w1)
qed

lemma processSources_closed:
  assumes fp: "fewerPairs w (fst st)" and q: "set (snd st) \<subseteq> C"
    and cl: "\<forall>x y. x \<in> C \<longrightarrow> (x, y) \<in> cascade w \<longrightarrow> y \<in> C" and c: "c \<in> C"
    and ri: "ri < length (relations w)"
  shows "fewerPairs w (fst (processSources c ri st)) \<and> set (snd (processSources c ri st)) \<subseteq> C"
  unfolding processSources_def
proof (rule fold_invariant [where Q = "\<lambda>x. (x, c) \<in> set (pairs (relations w ! ri))"
      and P = "\<lambda>st. fewerPairs w (fst st) \<and> set (snd st) \<subseteq> C"])
  fix x assume "x \<in> set (getEntitiesWithRelationTo (fst st) ri c)"
  then have "(x, c) \<in> set (pairs (relations (fst st) ! ri))"
    by (auto simp: getEntitiesWithRelationTo_def)
  with fp ri show "(x, c) \<in> set (pairs (relations w ! ri))" by (auto simp: fewerPairs_def)
next
  show "fewerPairs w (fst st) \<and> set (snd st) \<subseteq> C" using fp q by simp
next
  fix x s assume "(x, c) \<in> set (pairs (relations w ! ri))"
    and "fewerPairs w (fst s) \<and> set (snd s) \<subseteq> C"
  then show "fewerPairs w (fst (sourceStep c ri x s)) \<and> set (snd (sourceStep c ri x s)) \<subseteq> C"
    using sourceStep_closed [OF _ _ cl c ri] by blast
qed

lemma targetSteps_closed:
  assumes "set q \<subseteq> C" and "set xs \<subseteq> C"
  shows "set (fold (targetStep w1 p) xs q) \<subseteq> C"
  using assms by (induction xs arbitrary: q) (simp_all add: targetStep_def)

lemma processTargets_closed:
  assumes fp: "fewerPairs w (fst st)" and q: "set (snd st) \<subseteq> C"
    and cl: "\<forall>x y. x \<in> C \<longrightarrow> (x, y) \<in> cascade w \<longrightarrow> y \<in> C" and c: "c \<in> C"
    and ri: "ri < length (relations w)"
  shows "fewerPairs w (fst (processTargets c p ri st)) \<and> set (snd (processTargets c p ri st)) \<subseteq> C"
proof (cases "autoDestroy (relations (fst st) ! ri) = Target")
  case False
  with fp q show ?thesis by (simp add: processTargets_alt)
next
  case True
  with fp ri have t: "autoDestroy (relations w ! ri) = Target" by (simp add: fewerPairs_def)
  have "set (getRelationTargets (fst st) ri c) \<subseteq> C"
  proof
    fix y assume "y \<in> set (getRelationTargets (fst st) ri c)"
    then have "(c, y) \<in> set (pairs (relations (fst st) ! ri))"
      by (auto simp: getRelationTargets_def)
    with fp ri have "(c, y) \<in> set (pairs (relations w ! ri))" by (auto simp: fewerPairs_def)
    with t ri have "(c, y) \<in> cascade w" unfolding cascade_def by blast
    with cl c show "y \<in> C" by blast
  qed
  from targetSteps_closed [OF q this] True fp show ?thesis
    by (simp add: processTargets_alt)
qed

lemma processRelation_closed:
  assumes fp: "fewerPairs w (fst st)" and q: "set (snd st) \<subseteq> C"
    and cl: "\<forall>x y. x \<in> C \<longrightarrow> (x, y) \<in> cascade w \<longrightarrow> y \<in> C" and c: "c \<in> C"
    and ri: "ri < length (relations w)"
  shows "fewerPairs w (fst (processRelation c p ri st)) \<and> set (snd (processRelation c p ri st)) \<subseteq> C"
proof -
  from processSources_closed [OF fp q cl c ri]
  have "fewerPairs w (fst (processSources c ri st))" "set (snd (processSources c ri st)) \<subseteq> C"
    by simp_all
  from processTargets_closed [OF this cl c ri] show ?thesis by (simp add: processRelation_def)
qed

lemma processRelations_closed:
  assumes q: "set q \<subseteq> C"
    and cl: "\<forall>x y. x \<in> C \<longrightarrow> (x, y) \<in> cascade w \<longrightarrow> y \<in> C" and c: "c \<in> C"
  shows "fewerPairs w (fst (fold (processRelation c p) [0..<length (relations w)] (w, q)))
     \<and> set (snd (fold (processRelation c p) [0..<length (relations w)] (w, q))) \<subseteq> C"
proof (rule fold_invariant [where Q = "\<lambda>ri. ri < length (relations w)"
      and P = "\<lambda>st. fewerPairs w (fst st) \<and> set (snd st) \<subseteq> C"])
  fix ri assume "ri \<in> set [0..<length (relations w)]"
  then show "ri < length (relations w)" by simp
next
  show "fewerPairs w (fst (w, q)) \<and> set (snd (w, q)) \<subseteq> C" using q by (simp add: fewerPairs_refl)
next
  fix ri s assume "ri < length (relations w)" and "fewerPairs w (fst s) \<and> set (snd s) \<subseteq> C"
  then show "fewerPairs w (fst (processRelation c p ri s)) \<and> set (snd (processRelation c p ri s)) \<subseteq> C"
    using processRelation_closed [OF _ _ cl c] by blast
qed

lemma removeTraits_frame:
  "entityIndex (fold (\<lambda>t w. removeTrait w e t) ts w) = entityIndex w
   \<and> relations (fold (\<lambda>t w. removeTrait w e t) ts w) = relations w"
  by (induction ts arbitrary: w) (simp_all add: removeTrait_def)

lemma finishEntity_frame:
  "entityIndex (finishEntity w e) = removeAll e (entityIndex w)"
  "relations (finishEntity w e) = relations w"
  using removeTraits_frame [of e _ w]
  by (auto simp: finishEntity_def Let_def clearEntityMasks_def removeFromAllQuery_def
      releaseEntity_def removeAllTraits_def split: option.splits)

lemma destroyOne_eq:
  "destroyOne w c q p =
     (finishEntity (fst (fold (processRelation c p) [0..<length (relations w)] (w, q))) c,
      snd (fold (processRelation c p) [0..<length (relations w)] (w, q)))"
  by (simp add: destroyOne_def split: prod.splits)

lemma destroyOne_closed:
  assumes q: "set q \<subseteq> C"
    and cl: "\<forall>x y. x \<in> C \<longrightarrow> (x, y) \<in> cascade w \<longrightarrow> y \<in> C" and c: "c \<in> C"
  shows "set (snd (destroyOne w c q p)) \<subseteq> C"
    and "\<forall>x y. x \<in> C \<longrightarrow> (x, y) \<in> cascade (fst (destroyOne w c q p)) \<longrightarrow> y \<in> C"
    and "entityIndex (fst (destroyOne w c q p)) = removeAll c (entityIndex w)"
proof -
  let ?st = "fold (processRelation c p) [0..<length (relations w)] (w, q)"
  from processRelations_closed [OF q cl c, of p]
  have fp: "fewerPairs w (fst ?st)" and sub: "set (snd ?st) \<subseteq> C" by simp_all
  show "set (snd (destroyOne w c q p)) \<subseteq> C" using sub by (simp add: destroyOne_eq)
  show "entityIndex (fst (destroyOne w c q p)) = removeAll c (entityIndex w)"
    using fp by (simp add: destroyOne_eq finishEntity_frame fewerPairs_def)
  have "cascade (finishEntity (fst ?st) c) = cascade (fst ?st)"
    by (simp add: cascade_def finishEntity_frame)
  with fewerPairs_cascade [OF fp] have "cascade (fst (destroyOne w c q p)) \<subseteq> cascade w"
    by (simp add: destroyOne_eq)
  with cl show "\<forall>x y. x \<in> C \<longrightarrow> (x, y) \<in> cascade (fst (destroyOne w c q p)) \<longrightarrow> y \<in> C"
    by blast
qed



text \<open>The queue only grows while one entity is processed.\<close>

lemma sourceSteps_mono: "set (snd st) \<subseteq> set (snd (fold (sourceStep c ri) xs st))"
proof (induction xs arbitrary: st)
  case Nil
  show ?case by simp
next
  case (Cons x xs)
  have "set (snd st) \<subseteq> set (snd (sourceStep c ri x st))" by (auto simp: sourceStep_alt)
  with Cons [of "sourceStep c ri x st"] show ?case by auto
qed

lemma targetSteps_mono: "set q \<subseteq> set (fold (targetStep w1 p) xs q)"
proof (induction xs arbitrary: q)
  case Nil
  show ?case by simp
next
  case (Cons x xs)
  have "set q \<subseteq> set (targetStep w1 p x q)" by (auto simp: targetStep_def)
  with Cons [of "targetStep w1 p x q"] show ?case by auto
qed

lemma processRelation_mono: "set (snd st) \<subseteq> set (snd (processRelation c p ri st))"
proof -
  have "set (snd st) \<subseteq> set (snd (processSources c ri st))"
    by (simp add: processSources_def sourceSteps_mono)
  moreover have "set (snd st') \<subseteq> set (snd (processTargets c p ri st'))" for st'
    using targetSteps_mono [of "snd st'" "fst st'" p] by (simp add: processTargets_alt)
  ultimately show ?thesis unfolding processRelation_def by blast
qed

lemma processRelations_mono: "set (snd st) \<subseteq> set (snd (fold (processRelation c p) ris st))"
proof (induction ris arbitrary: st)
  case Nil
  show ?case by simp
next
  case (Cons ri ris)
  from processRelation_mono [of st c p ri] Cons [of "processRelation c p ri st"]
  show ?case by auto
qed








lemma destroyOne_frame:
  "entityIndex (fst (destroyOne w c q p)) = removeAll c (entityIndex w)"
  "set q \<subseteq> set (snd (destroyOne w c q p))"
proof -
  show "entityIndex (fst (destroyOne w c q p)) = removeAll c (entityIndex w)"
    by (rule destroyOne_closed(3) [where C = UNIV]) simp_all
  show "set q \<subseteq> set (snd (destroyOne w c q p))"
    using processRelations_mono [of "(w, q)" c p] by (simp add: destroyOne_eq)
qed

lemma destroyLoop_kills:
  assumes "\<forall>x \<in> p. \<not> world_has w x"
  shows "set (entityIndex (fst (destroyLoop w q p))) \<subseteq> set (entityIndex w) - set q
     \<and> set q \<union> p \<subseteq> snd (destroyLoop w q p)"
  using assms
proof (induction w q p rule: destroyLoop.induct)
  case (1 w processed)
  show ?case by simp
next
  case (2 w currentEntity queue processed)
  show ?case
  proof (cases "currentEntity \<in> processed")
    case True
    with "2.prems" have "currentEntity \<notin> set (entityIndex w)" by (simp add: world_has_def)
    with "2.IH"(1) [OF True "2.prems"] True show ?thesis by auto
  next
    case False
    let ?p = "insert currentEntity processed"
    note f = destroyOne_frame [where w = w and c = currentEntity and q = queue and p = ?p]
    have "\<forall>x \<in> ?p. \<not> world_has (fst (destroyOne w currentEntity queue ?p)) x"
      using "2.prems" by (simp add: world_has_def f(1))
    from "2.IH"(2) [OF False this] f False show ?thesis by auto
  qed
qed



lemma destroyEntity_destroys:
  assumes "world_has w e"
  shows "\<not> world_has (snd (destroyEntity w e)) e"
  using destroyLoop_kills [of "{}" w "[e]"] assms
  by (auto simp: destroyEntity_def world_has_def simp del: destroyLoop.simps)




text \<open>
  C6. For every world and every handle that does not exist in it, \<open>destroyEntity\<close> throws
  its error and leaves the world as it was.
\<close>

theorem destroyEntity_nonexistent_is_error:
  assumes "\<not> world_has w e"
  shows "destroyEntity w e = (Some EntityDoesNotExist, w)"
  using assms by (simp add: destroyEntity_def)

theorem destroyEntity_nonexistent_is_error_witness:
  "\<not> world_has (world_childOf [(entity_B, entity_A)]) (entity_A\<lparr>generation := 1\<rparr>)
   \<and> destroyEntity (world_childOf [(entity_B, entity_A)]) (entity_A\<lparr>generation := 1\<rparr>)
       = (Some EntityDoesNotExist, world_childOf [(entity_B, entity_A)])
   \<and> world_has (world_childOf [(entity_B, entity_A)]) entity_B
   \<and> fst (destroyEntity (world_childOf [(entity_B, entity_A)]) entity_B) = None
   \<and> \<not> world_has (snd (destroyEntity (world_childOf [(entity_B, entity_A)]) entity_B)) entity_B
   \<and> destroyEntity (snd (destroyEntity (world_childOf [(entity_B, entity_A)]) entity_B)) entity_B
       = (Some EntityDoesNotExist, snd (destroyEntity (world_childOf [(entity_B, entity_A)]) entity_B))"
proof -
  let ?w = "world_childOf [(entity_B, entity_A)]"
  have 1: "\<not> world_has ?w (entity_A\<lparr>generation := 1\<rparr>)"
    by (simp add: world_childOf_def world_has_def entity_A_def entity_B_def)
  have 2: "world_has ?w entity_B" by (simp add: world_childOf_def world_has_def)
  have 3: "fst (destroyEntity ?w entity_B) = None" using 2 by (simp add: destroyEntity_def)
  note 4 = destroyEntity_destroys [OF 2]
  from 1 2 3 4 destroyEntity_nonexistent_is_error [OF 1] destroyEntity_nonexistent_is_error [OF 4]
  show ?thesis by (intro conjI)
qed

end
